theory Spec2Isabelle
  imports Main "HOL-Library.Word" "HOL-Library.Monad_Syntax"
begin

unbundle bit_operations_syntax

section \<open>Data model of jsdevices.c and jsinteractive.c\<close>

text \<open>
  The globals of the two files are gathered in one record, \<open>machine\<close>; every function of
  the source becomes a function on that record. The build that is modelled is the plain
  embedded one: no LINUX, USB, BLUETOOTH, USE_TELNET, USE_TERMINAL or USE_SWDCON, and
  neither SAVE_ON_FLASH nor ESPR_NO_PASSWORD.

  Constants, macros and collaborators that are declared in headers or files outside
  jsdevices.c and jsinteractive.c are fields of the record \<open>config\<close>. So are the
  parts of jsinteractive.c that run the execution engine, the JSON parser, the storage
  layer and the line editor: \<open>jsiPacketEval\<close> to \<open>jsiPacketData\<close> are the bodies of the
  five branches of jsiPacketProcess, \<open>jsiPasswordEntry\<close> is the password branch of
  jsiHandleConsoleChar and \<open>jsiLineEditing\<close> its branches for escape sequences and plain
  characters, \<open>versionBanner\<close> is the text "Espruino JS_VERSION PC_BOARD_ID" with its
  newline, \<open>jshBusyIdle\<close> is what the platform and its interrupt handlers do during one
  call of jshBusyIdle. A collaborator that does not return gives \<open>None\<close>.

  \<open>IOEventFlags\<close> is a packed enum that the event buffer stores in one byte
  ("1 byte: Flags (IOEventFlags)"), so it is an 8-bit word; \<open>Pin\<close> is a byte as well.
  Calls of the hardware layer that return nothing (jshUSARTKick, jshPinSetValue,
  jshPinOutput) are appended to the trace \<open>hal\<close>; jshInterruptOff, jshInterruptOn and
  jshHadEvent carry no data and leave the record as it is.
\<close>

type_synonym IOEventFlags = "8 word"
type_synonym Pin = "8 word"

record TxBufferItem =
  flags :: IOEventFlags
  data :: "8 word"

datatype InputState =
    IPS_NONE
  | IPS_HAD_R
  | IPS_PACKET_TRANSFER_BYTE0
  | IPS_PACKET_TRANSFER_BYTE1
  | IPS_PACKET_TRANSFER_DATA
  | IPS_HAD_DLE
  | IPS_HAD_27
  | IPS_HAD_27_79
  | IPS_HAD_27_91
  | IPS_HAD_27_91_NUMBER

text \<open>The value the C enum gives each state; the macro below compares these values.\<close>

primrec InputState_value :: "InputState \<Rightarrow> nat" where
  "InputState_value IPS_NONE = 0"
| "InputState_value IPS_HAD_R = 1"
| "InputState_value IPS_PACKET_TRANSFER_BYTE0 = 2"
| "InputState_value IPS_PACKET_TRANSFER_BYTE1 = 3"
| "InputState_value IPS_PACKET_TRANSFER_DATA = 4"
| "InputState_value IPS_HAD_DLE = 5"
| "InputState_value IPS_HAD_27 = 6"
| "InputState_value IPS_HAD_27_79 = 7"
| "InputState_value IPS_HAD_27_91 = 8"
| "InputState_value IPS_HAD_27_91_NUMBER = 9"

definition IS_PACKET_TRANSFER :: "InputState \<Rightarrow> bool" where
  "IS_PACKET_TRANSFER state \<longleftrightarrow>
     InputState_value state \<ge> InputState_value IPS_PACKET_TRANSFER_BYTE0 \<and>
     InputState_value state \<le> InputState_value IPS_PACKET_TRANSFER_DATA"

datatype hal_call =
    USARTKick IOEventFlags
  | PinSetValue Pin bool
  | PinOutput Pin bool

text \<open>The native function that jsiSetTimeout is given when a packet starts.\<close>

datatype native_callback = PacketTimeoutHandler

text \<open>
  Modelled from the spec: jswrap_interface_setTimeout, which jsiSetTimeout calls, is not
  part of the two files. A timer is the TimerDescriptor of the spec reduced to what
  jsiSetTimeout passes on: the callback and the time remaining, in milliseconds.
\<close>

record TimerDescriptor =
  cb :: native_callback
  timeRemaining :: int

record machine =
  txBuffer :: "TxBufferItem list"
  txHead :: nat
  txTail :: nat
  jshSerialFlowControlWasSet :: bool
  jshSerialDeviceStates :: "8 word list"
  jshSerialDeviceCTSPins :: "Pin list"
  ioBuffer :: "8 word list"
  ioHead :: nat
  ioLastHead :: nat
  ioTail :: nat
  jsErrorFlags :: "32 word"
  jshIsInInterrupt :: bool
  consoleDevice :: IOEventFlags
  pinBusyIndicator :: Pin
  business :: "8 word"
  jsiStatus :: "32 word"
  execute :: "32 word"
  inputLine :: "8 word list"
  inputLineIteratorVar :: bool
  inputLineLength :: int
  inputState :: InputState
  inputPacketLength :: "16 word"
  PK_IL :: "8 word list option"
  PK_TIMEOUT :: "TimerDescriptor option"
  hal :: "hal_call list"

record config =
  TXBUFFERMASK :: nat
  IOBUFFERMASK :: nat
  IOEVENT_MAX_LEN :: nat
  IOBUFFER_XOFF :: int
  IOBUFFER_XON :: int
  EV_NONE :: IOEventFlags
  EV_TYPE_MASK :: IOEventFlags
  EV_LOOPBACKA :: IOEventFlags
  EV_LOOPBACKB :: IOEventFlags
  EV_LIMBO :: IOEventFlags
  EV_SERIAL_DEVICE_STATE_START :: IOEventFlags
  EV_SERIAL_MAX :: IOEventFlags
  PIN_UNDEFINED :: Pin
  JSERR_RX_FIFO_FULL :: "32 word"
  JSERR_BUFFER_FULL :: "32 word"
  BUSY_TRANSMIT :: "8 word"
  BUSY_INTERACTIVE :: "8 word"
  EXEC_CTRL_C :: "32 word"
  EXEC_CTRL_C_MASK :: "32 word"
  JSIS_PASSWORD_PROTECTED :: "32 word"
  JSIS_ECHO_OFF_FOR_LINE :: "32 word"
  jshBusyIdle :: "machine \<Rightarrow> machine"
  jswOnCharEvent :: "IOEventFlags \<Rightarrow> 8 word \<Rightarrow> bool"
  versionBanner :: "8 word list"
  jsiPasswordEntry :: "8 word \<Rightarrow> machine \<Rightarrow> machine option"
  jsiLineEditing :: "8 word \<Rightarrow> machine \<Rightarrow> machine option"
  jsiPacketEval :: "machine \<Rightarrow> machine option"
  jsiPacketEvent :: "machine \<Rightarrow> machine option"
  jsiPacketFileRecv :: "machine \<Rightarrow> machine option"
  jsiPacketFileSend :: "machine \<Rightarrow> machine option"
  jsiPacketData :: "machine \<Rightarrow> machine option"

subsection \<open>Serial device state flags (JshSerialDeviceState)\<close>

definition SDS_NONE :: "8 word" where "SDS_NONE = 0"
definition SDS_XOFF_PENDING :: "8 word" where "SDS_XOFF_PENDING = 1"
definition SDS_XON_PENDING :: "8 word" where "SDS_XON_PENDING = 2"
definition SDS_XOFF_SENT :: "8 word" where "SDS_XOFF_SENT = 4"
definition SDS_FLOW_CONTROL_XON_XOFF :: "8 word" where "SDS_FLOW_CONTROL_XON_XOFF = 8"
definition SDS_ERROR_HANDLING :: "8 word" where "SDS_ERROR_HANDLING = 16"

definition JSHSERIALDEVICESTATUSES :: "config \<Rightarrow> nat" where
  "JSHSERIALDEVICESTATUSES cfg =
     unat (1 + EV_SERIAL_MAX cfg - EV_SERIAL_DEVICE_STATE_START cfg)"

text \<open>
  Modelled from the spec: the macros DEVICE_HAS_DEVICE_STATE, TO_SERIAL_DEVICE_STATE and
  IOEVENTFLAGS_GETTYPE are declared in jsdevices.h, which is not among the sources. A
  device has flow-control state when it lies between EV_SERIAL_DEVICE_STATE_START and
  EV_SERIAL_MAX (the range JSHSERIALDEVICESTATUSES counts and jshSetFlowControlAllReady
  walks), its slot is its offset from the start, and the type of an event is its flags
  under EV_TYPE_MASK (the bits jshTransmitMove replaces).
\<close>

definition DEVICE_HAS_DEVICE_STATE :: "config \<Rightarrow> IOEventFlags \<Rightarrow> bool" where
  "DEVICE_HAS_DEVICE_STATE cfg X \<longleftrightarrow>
     EV_SERIAL_DEVICE_STATE_START cfg \<le> X \<and> X \<le> EV_SERIAL_MAX cfg"

definition TO_SERIAL_DEVICE_STATE :: "config \<Rightarrow> IOEventFlags \<Rightarrow> nat" where
  "TO_SERIAL_DEVICE_STATE cfg X = unat (X - EV_SERIAL_DEVICE_STATE_START cfg)"

definition IOEVENTFLAGS_GETTYPE :: "config \<Rightarrow> IOEventFlags \<Rightarrow> IOEventFlags" where
  "IOEVENTFLAGS_GETTYPE cfg X = X AND EV_TYPE_MASK cfg"

definition jshUSARTKick :: "IOEventFlags \<Rightarrow> machine \<Rightarrow> machine" where
  "jshUSARTKick device s = s\<lparr>hal := hal s @ [USARTKick device]\<rparr>"

definition jshPinSetValue :: "Pin \<Rightarrow> bool \<Rightarrow> machine \<Rightarrow> machine" where
  "jshPinSetValue pin v s = s\<lparr>hal := hal s @ [PinSetValue pin v]\<rparr>"

section \<open>Flow control\<close>

definition jshSetFlowControlXON :: "config \<Rightarrow> IOEventFlags \<Rightarrow> bool \<Rightarrow> machine \<Rightarrow> machine" where
  "jshSetFlowControlXON cfg device hostShouldTransmit s =
     (if DEVICE_HAS_DEVICE_STATE cfg device then
        (let s1 = (if \<not> hostShouldTransmit then s\<lparr>jshSerialFlowControlWasSet := True\<rparr> else s);
             devIdx = TO_SERIAL_DEVICE_STATE cfg device;
             deviceState = jshSerialDeviceStates s1 ! devIdx;
             s2 =
               (if deviceState AND SDS_FLOW_CONTROL_XON_XOFF \<noteq> 0 then
                  (if hostShouldTransmit then
                     (if deviceState AND (SDS_XOFF_SENT OR SDS_XON_PENDING) = SDS_XOFF_SENT then
                        jshUSARTKick device
                          (s1\<lparr>jshSerialDeviceStates :=
                                (jshSerialDeviceStates s1)[devIdx := deviceState OR SDS_XON_PENDING]\<rparr>)
                      else s1)
                   else
                     (if deviceState AND (SDS_XOFF_SENT OR SDS_XOFF_PENDING) = 0 then
                        jshUSARTKick device
                          (s1\<lparr>jshSerialDeviceStates :=
                                (jshSerialDeviceStates s1)[devIdx := deviceState OR SDS_XOFF_PENDING]\<rparr>)
                      else s1))
                else s1);
             flowControlPin = jshSerialDeviceCTSPins s2 ! devIdx
         in if flowControlPin \<noteq> PIN_UNDEFINED cfg
            then jshPinSetValue flowControlPin (\<not> hostShouldTransmit) s2
            else s2)
      else s)"

section \<open>Transmit buffer\<close>

text \<open>
  The inner loop of jshGetCharToTransmit: working back from the item found to the tail,
  each slot takes the item of the slot before it.
\<close>

partial_function (option) txShiftBack ::
  "nat \<Rightarrow> nat \<Rightarrow> TxBufferItem list \<Rightarrow> nat \<Rightarrow> nat \<Rightarrow> TxBufferItem list option" where
  "txShiftBack msk tailIdx buf thisIdx lastIdx =
     (if thisIdx \<noteq> tailIdx
      then txShiftBack msk tailIdx (buf[thisIdx := buf ! lastIdx]) lastIdx ((lastIdx + msk) AND msk)
      else Some buf)"

declare txShiftBack.simps [code]

text \<open>The outer loop: the search from the tail for the first item of the device.\<close>

partial_function (option) txScan ::
  "config \<Rightarrow> IOEventFlags \<Rightarrow> machine \<Rightarrow> nat \<Rightarrow> (int \<times> machine) option" where
  "txScan cfg device s tempTail =
     (if txHead s \<noteq> tempTail then
        (if IOEVENTFLAGS_GETTYPE cfg (flags (txBuffer s ! tempTail)) = device then
           (if tempTail \<noteq> txTail s then
              (case txShiftBack (TXBUFFERMASK cfg) (txTail s) (txBuffer s) tempTail
                      ((tempTail + TXBUFFERMASK cfg) AND TXBUFFERMASK cfg) of
                 None \<Rightarrow> None
               | Some buf \<Rightarrow>
                   Some (uint (data (txBuffer s ! tempTail)),
                         s\<lparr>txBuffer := buf,
                           txTail := (txTail s + 1) AND TXBUFFERMASK cfg\<rparr>))
            else
              Some (uint (data (txBuffer s ! tempTail)),
                    s\<lparr>txTail := (txTail s + 1) AND TXBUFFERMASK cfg\<rparr>))
         else txScan cfg device s ((tempTail + 1) AND TXBUFFERMASK cfg))
      else Some (- 1, s))"

declare txScan.simps [code]

definition jshGetCharToTransmit :: "config \<Rightarrow> IOEventFlags \<Rightarrow> machine \<Rightarrow> (int \<times> machine) option" where
  "jshGetCharToTransmit cfg device s =
     (if DEVICE_HAS_DEVICE_STATE cfg device \<and>
         jshSerialDeviceStates s ! TO_SERIAL_DEVICE_STATE cfg device AND SDS_XOFF_PENDING \<noteq> 0
      then
        Some (19, s\<lparr>jshSerialDeviceStates :=
                (jshSerialDeviceStates s)[TO_SERIAL_DEVICE_STATE cfg device :=
                   (jshSerialDeviceStates s ! TO_SERIAL_DEVICE_STATE cfg device
                      AND NOT SDS_XOFF_PENDING) OR SDS_XOFF_SENT]\<rparr>)
      else if DEVICE_HAS_DEVICE_STATE cfg device \<and>
         jshSerialDeviceStates s ! TO_SERIAL_DEVICE_STATE cfg device AND SDS_XON_PENDING \<noteq> 0
      then
        Some (17, s\<lparr>jshSerialDeviceStates :=
                (jshSerialDeviceStates s)[TO_SERIAL_DEVICE_STATE cfg device :=
                   jshSerialDeviceStates s ! TO_SERIAL_DEVICE_STATE cfg device
                      AND NOT (SDS_XON_PENDING OR SDS_XOFF_SENT)]\<rparr>)
      else txScan cfg device s (txTail s))"

section \<open>IO event buffer\<close>

definition jshIOEventOverflowed :: "config \<Rightarrow> machine \<Rightarrow> machine" where
  "jshIOEventOverflowed cfg s = s\<lparr>jsErrorFlags := jsErrorFlags s OR JSERR_RX_FIFO_FULL cfg\<rparr>"

definition jshGetEventsUsed :: "config \<Rightarrow> machine \<Rightarrow> int" where
  "jshGetEventsUsed cfg s =
     (if ioHead s \<ge> ioTail s then int (ioHead s) - int (ioTail s)
      else int (ioHead s) + int (IOBUFFERMASK cfg) + 1 - int (ioTail s))"

definition jshGetIOCharEventsFree :: "config \<Rightarrow> machine \<Rightarrow> int" where
  "jshGetIOCharEventsFree cfg s =
     (int (IOBUFFERMASK cfg) + 1 - jshGetEventsUsed cfg s) - 4"

text \<open>
  The copy loop of jshPushEvent: \<open>len\<close> bytes of the caller's array go in at \<open>idx\<close>,
  which advances under the mask. The caller's array holds at least \<open>len\<close> bytes.
\<close>

definition ioCopyIn ::
  "nat \<Rightarrow> 8 word list \<Rightarrow> nat \<Rightarrow> 8 word list \<times> nat \<Rightarrow> 8 word list \<times> nat" where
  "ioCopyIn msk d len =
     fold (\<lambda>i (buf, idx). (buf[idx := d ! i], (idx + 1) AND msk)) [0..<len]"

text \<open>
  jshPushEvent. The assertion \<open>length \<le> IOEVENT_MAX_LEN\<close> is the contract of the
  function; when it is compiled out a longer event is cut to IOEVENT_MAX_LEN, which is
  what the model does.
\<close>

definition jshPushEvent ::
  "config \<Rightarrow> IOEventFlags \<Rightarrow> 8 word list \<Rightarrow> nat \<Rightarrow> machine \<Rightarrow> bool \<times> machine" where
  "jshPushEvent cfg evt d len0 s =
     (let len = (if len0 > IOEVENT_MAX_LEN cfg then IOEVENT_MAX_LEN cfg else len0) in
      if jshGetIOCharEventsFree cfg s < int len + 2 then (False, jshIOEventOverflowed cfg s)
      else
        (let idx0 = ioHead s;
             buf0 = (ioBuffer s)[idx0 := of_nat len];
             idx1 = (idx0 + 1) AND IOBUFFERMASK cfg;
             buf1 = buf0[idx1 := evt];
             idx2 = (idx1 + 1) AND IOBUFFERMASK cfg;
             (buf2, idx3) = ioCopyIn (IOBUFFERMASK cfg) d len (buf1, idx2)
         in (True, s\<lparr>ioBuffer := buf2, ioLastHead := ioHead s, ioHead := idx3\<rparr>)))"

text \<open>
  The copy loop of jshPopIOEvent and jshPopIOEventOfType: the bytes written to the
  caller's array, and the index after them.
\<close>

definition ioCopyOut :: "nat \<Rightarrow> 8 word list \<Rightarrow> nat \<Rightarrow> nat \<Rightarrow> 8 word list \<times> nat" where
  "ioCopyOut msk buf len idx =
     fold (\<lambda>i (out, idx). (out @ [buf ! idx], (idx + 1) AND msk)) [0..<len] ([], idx)"

text \<open>
  jshPopIOEvent returns the flags of the event; the second component is what was
  written through the pointers \<open>data\<close> and \<open>length\<close> (the length is the length of the
  list), \<open>None\<close> when the queue is empty and nothing is written.
\<close>

definition jshPopIOEvent ::
  "config \<Rightarrow> machine \<Rightarrow> IOEventFlags \<times> 8 word list option \<times> machine" where
  "jshPopIOEvent cfg s =
     (if ioHead s = ioTail s then (EV_NONE cfg, None, s)
      else
        (let s1 = (if ioLastHead s = ioTail s then s\<lparr>ioLastHead := ioHead s\<rparr> else s);
             idx0 = ioTail s1;
             len = unat (ioBuffer s1 ! idx0);
             idx1 = (idx0 + 1) AND IOBUFFERMASK cfg;
             evt = ioBuffer s1 ! idx1;
             idx2 = (idx1 + 1) AND IOBUFFERMASK cfg;
             (out, idx3) = ioCopyOut (IOBUFFERMASK cfg) (ioBuffer s1) len idx2
         in (evt, Some out, s1\<lparr>ioTail := idx3\<rparr>)))"

text \<open>
  The compaction loop of jshPopIOEventOfType (\<open>while (true)\<close> with a break when the
  source index is the tail): it returns the buffer and the last destination index.
\<close>

partial_function (option) ioShiftDown ::
  "nat \<Rightarrow> nat \<Rightarrow> 8 word list \<Rightarrow> nat \<Rightarrow> nat \<Rightarrow> (8 word list \<times> nat) option" where
  "ioShiftDown msk tailIdx buf dst src =
     (if src = tailIdx then Some (buf[dst := buf ! src], dst)
      else ioShiftDown msk tailIdx (buf[dst := buf ! src])
             ((dst + msk) AND msk) ((src + msk) AND msk))"

declare ioShiftDown.simps [code]

partial_function (option) ioScanType ::
  "config \<Rightarrow> IOEventFlags \<Rightarrow> machine \<Rightarrow> nat \<Rightarrow>
     (IOEventFlags \<times> 8 word list option \<times> machine) option" where
  "ioScanType cfg eventType s i =
     (if ioHead s \<noteq> i then
        (if IOEVENTFLAGS_GETTYPE cfg (ioBuffer s ! ((i + 1) AND IOBUFFERMASK cfg)) = eventType
         then
           (case ioShiftDown (IOBUFFERMASK cfg) (ioTail s) (ioBuffer s)
                   ((i + unat (ioBuffer s ! i) + 1) AND IOBUFFERMASK cfg)
                   ((i + IOBUFFERMASK cfg) AND IOBUFFERMASK cfg) of
              None \<Rightarrow> None
            | Some (buf, dst) \<Rightarrow>
                Some (ioBuffer s ! ((i + 1) AND IOBUFFERMASK cfg),
                      Some (fst (ioCopyOut (IOBUFFERMASK cfg) (ioBuffer s) (unat (ioBuffer s ! i))
                                   ((((i + 1) AND IOBUFFERMASK cfg) + 1) AND IOBUFFERMASK cfg))),
                      s\<lparr>ioBuffer := buf, ioTail := dst, ioLastHead := ioHead s\<rparr>))
         else ioScanType cfg eventType s ((i + unat (ioBuffer s ! i) + 2) AND IOBUFFERMASK cfg))
      else Some (EV_NONE cfg, None, s))"

declare ioScanType.simps [code]

definition jshPopIOEventOfType ::
  "config \<Rightarrow> IOEventFlags \<Rightarrow> machine \<Rightarrow> (IOEventFlags \<times> 8 word list option \<times> machine) option" where
  "jshPopIOEventOfType cfg eventType s = ioScanType cfg eventType s (ioTail s)"

definition jshHasEvents :: "machine \<Rightarrow> bool" where
  "jshHasEvents s \<longleftrightarrow> ioHead s \<noteq> ioTail s"

definition jshIsTopEvent :: "config \<Rightarrow> IOEventFlags \<Rightarrow> machine \<Rightarrow> bool" where
  "jshIsTopEvent cfg eventType s =
     (if ioHead s = ioTail s then False
      else IOEVENTFLAGS_GETTYPE cfg (ioBuffer s ! ((ioTail s + 1) AND IOBUFFERMASK cfg)) = eventType)"

section \<open>Ctrl-C and character events\<close>

definition jsiPasswordProtected :: "config \<Rightarrow> machine \<Rightarrow> bool" where
  "jsiPasswordProtected cfg s \<longleftrightarrow> jsiStatus s AND JSIS_PASSWORD_PROTECTED cfg \<noteq> 0"

definition jsiCtrlC :: "config \<Rightarrow> machine \<Rightarrow> machine" where
  "jsiCtrlC cfg s =
     (if jsiPasswordProtected cfg s \<or> IS_PACKET_TRANSFER (inputState s) then s
      else s\<lparr>execute := execute s OR EXEC_CTRL_C cfg\<rparr>)"

definition jshPushIOCharEventsHandler ::
  "config \<Rightarrow> IOEventFlags \<Rightarrow> 8 word list \<Rightarrow> nat \<Rightarrow> machine \<Rightarrow> bool \<times> machine" where
  "jshPushIOCharEventsHandler cfg channel d count s =
     fold (\<lambda>i (handled, s).
             (handled \<or> jswOnCharEvent cfg channel (d ! i),
              if d ! i = 3 \<and> channel = consoleDevice s then jsiCtrlC cfg s else s))
          [0..<count] (False, s)"

text \<open>
  The chunking loop of jshPushIOCharEvents (\<open>while (count)\<close>); the result of each
  jshPushEvent is dropped, as in the source.
\<close>

partial_function (option) jshPushIOCharEventsChunks ::
  "config \<Rightarrow> IOEventFlags \<Rightarrow> 8 word list \<Rightarrow> nat \<Rightarrow> machine \<Rightarrow> machine option" where
  "jshPushIOCharEventsChunks cfg channel d count s =
     (if count \<noteq> 0 then
        jshPushIOCharEventsChunks cfg channel
          (drop (if count > IOEVENT_MAX_LEN cfg then IOEVENT_MAX_LEN cfg else count) d)
          (count - (if count > IOEVENT_MAX_LEN cfg then IOEVENT_MAX_LEN cfg else count))
          (snd (jshPushEvent cfg channel d
                  (if count > IOEVENT_MAX_LEN cfg then IOEVENT_MAX_LEN cfg else count) s))
      else Some s)"

declare jshPushIOCharEventsChunks.simps [code]

definition jshPushIOCharEvents ::
  "config \<Rightarrow> IOEventFlags \<Rightarrow> 8 word list \<Rightarrow> nat \<Rightarrow> machine \<Rightarrow> machine option" where
  "jshPushIOCharEvents cfg channel d count s0 =
     (let (handled, s) = jshPushIOCharEventsHandler cfg channel d count s0 in
      if handled then Some s
      else
        (case
           (if ioLastHead s \<noteq> ioHead s \<and>
               ioLastHead s \<noteq> ioTail s \<and>
               ioBuffer s ! ((ioLastHead s + 1) AND IOBUFFERMASK cfg) = channel \<and>
               unat (ioBuffer s ! ioLastHead s) + count < IOEVENT_MAX_LEN cfg \<and>
               jshGetIOCharEventsFree cfg s > 0
            then
              (let buf0 = (ioBuffer s)[ioLastHead s := ioBuffer s ! ioLastHead s + of_nat count];
                   (buf1, idx) = ioCopyIn (IOBUFFERMASK cfg) d count (buf0, ioHead s)
               in Some (s\<lparr>ioBuffer := buf1, ioHead := idx\<rparr>))
            else jshPushIOCharEventsChunks cfg channel d count s) of
           None \<Rightarrow> None
         | Some s1 \<Rightarrow>
             (if DEVICE_HAS_DEVICE_STATE cfg channel \<and> jshGetEventsUsed cfg s1 > IOBUFFER_XOFF cfg
              then Some (jshSetFlowControlXON cfg channel False s1)
              else Some s1)))"

definition jshPushIOCharEvent :: "config \<Rightarrow> IOEventFlags \<Rightarrow> 8 word \<Rightarrow> machine \<Rightarrow> machine option" where
  "jshPushIOCharEvent cfg channel ch s = jshPushIOCharEvents cfg channel [ch] 1 s"

section \<open>Queueing a character for transmission\<close>

definition jshPinOutput :: "Pin \<Rightarrow> bool \<Rightarrow> machine \<Rightarrow> machine" where
  "jshPinOutput pin v s = s\<lparr>hal := hal s @ [PinOutput pin v]\<rparr>"

definition jsiSetBusy :: "config \<Rightarrow> 8 word \<Rightarrow> bool \<Rightarrow> machine \<Rightarrow> machine" where
  "jsiSetBusy cfg device isBusy s =
     (let s1 = (if isBusy then s\<lparr>business := business s OR device\<rparr>
                else s\<lparr>business := business s AND NOT device\<rparr>)
      in if pinBusyIndicator s1 \<noteq> PIN_UNDEFINED cfg
         then jshPinOutput (pinBusyIndicator s1) (business s1 \<noteq> 0) s1
         else s1)"

text \<open>
  The wait loop of jshTransmit, \<open>while (txHeadNext==txTail)\<close>. The first component of
  the result is False when the loop was left by the \<open>return\<close> of the interrupt branch.
  A loop that never ends is \<open>None\<close>.
\<close>

partial_function (option) jshTransmitWait ::
  "config \<Rightarrow> nat \<Rightarrow> machine \<Rightarrow> (bool \<times> machine) option" where
  "jshTransmitWait cfg txHeadNext s =
     (if txHeadNext = txTail s then
        (if jshIsInInterrupt s
         then Some (False, s\<lparr>jsErrorFlags := jsErrorFlags s OR JSERR_BUFFER_FULL cfg\<rparr>)
         else jshTransmitWait cfg txHeadNext (jshBusyIdle cfg s))
      else Some (True, s))"

declare jshTransmitWait.simps [code]

text \<open>The last three statements of jshTransmit.\<close>

definition jshTransmitStore :: "nat \<Rightarrow> IOEventFlags \<Rightarrow> 8 word \<Rightarrow> machine \<Rightarrow> machine" where
  "jshTransmitStore txHeadNext device d s =
     jshUSARTKick device
       (s\<lparr>txBuffer := (txBuffer s)[txHead s := \<lparr>flags = device, data = d\<rparr>],
          txHead := txHeadNext\<rparr>)"

definition jshTransmit :: "config \<Rightarrow> IOEventFlags \<Rightarrow> 8 word \<Rightarrow> machine \<Rightarrow> machine option" where
  "jshTransmit cfg device d s =
     (if device = EV_LOOPBACKA cfg \<or> device = EV_LOOPBACKB cfg then
        jshPushIOCharEvent cfg
          (if device = EV_LOOPBACKB cfg then EV_LOOPBACKA cfg else EV_LOOPBACKB cfg) d s
      else if device = EV_NONE cfg then Some s
      else if (txHead s + 1) AND TXBUFFERMASK cfg = txTail s then
        (case jshTransmitWait cfg ((txHead s + 1) AND TXBUFFERMASK cfg)
                (jsiSetBusy cfg (BUSY_TRANSMIT cfg) True s) of
           None \<Rightarrow> None
         | Some (False, s1) \<Rightarrow> Some s1
         | Some (True, s1) \<Rightarrow>
             Some (jshTransmitStore ((txHead s + 1) AND TXBUFFERMASK cfg)
                     (if (device = EV_LIMBO cfg \<and> consoleDevice s = EV_LIMBO cfg) \<and>
                         consoleDevice s1 \<noteq> EV_LIMBO cfg
                      then consoleDevice s1 else device)
                     d (jsiSetBusy cfg (BUSY_TRANSMIT cfg) False s1)))
      else Some (jshTransmitStore ((txHead s + 1) AND TXBUFFERMASK cfg) device d s))"

definition jshHasTransmitData :: "machine \<Rightarrow> bool" where
  "jshHasTransmitData s \<longleftrightarrow> txHead s \<noteq> txTail s"

section \<open>Console output\<close>

definition jsiConsolePrintChar :: "config \<Rightarrow> 8 word \<Rightarrow> machine \<Rightarrow> machine option" where
  "jsiConsolePrintChar cfg d s = jshTransmit cfg (consoleDevice s) d s"

fun jsiConsolePrintString :: "config \<Rightarrow> 8 word list \<Rightarrow> machine \<Rightarrow> machine option" where
  "jsiConsolePrintString cfg [] s = Some s"
| "jsiConsolePrintString cfg (c # str) s =
     (case (if c = 10 then jsiConsolePrintChar cfg 13 s else Some s) of
        None \<Rightarrow> None
      | Some s1 \<Rightarrow>
          (case jsiConsolePrintChar cfg c s1 of
             None \<Rightarrow> None
           | Some s2 \<Rightarrow> jsiConsolePrintString cfg str s2))"

section \<open>Console input: the packet protocol\<close>

definition PT_SIZE_MASK :: "16 word" where "PT_SIZE_MASK = 0x1FFF"
definition PT_TYPE_MASK :: "16 word" where "PT_TYPE_MASK = 0xE000"
definition PT_TYPE_RESPONSE :: "16 word" where "PT_TYPE_RESPONSE = 0x0000"
definition PT_TYPE_EVAL :: "16 word" where "PT_TYPE_EVAL = 0x2000"
definition PT_TYPE_EVENT :: "16 word" where "PT_TYPE_EVENT = 0x4000"
definition PT_TYPE_FILE_SEND :: "16 word" where "PT_TYPE_FILE_SEND = 0x6000"
definition PT_TYPE_DATA :: "16 word" where "PT_TYPE_DATA = 0x8000"
definition PT_TYPE_FILE_RECV :: "16 word" where "PT_TYPE_FILE_RECV = 0xA000"

definition ASCII_ACK :: "8 word" where "ASCII_ACK = 6"
definition ASCII_NAK :: "8 word" where "ASCII_NAK = 21"
definition ASCII_DLE :: "8 word" where "ASCII_DLE = 16"
definition ASCII_SOH :: "8 word" where "ASCII_SOH = 1"

text \<open>
  The input line is a string variable; a null pointer (no line) is the empty list. The
  string iterator is represented by whether its \<open>var\<close> is set.
\<close>

definition jsiInputLineCursorMoved :: "machine \<Rightarrow> machine" where
  "jsiInputLineCursorMoved s = s\<lparr>inputLineIteratorVar := False, inputLineLength := - 1\<rparr>"

definition jsiAppendToInputLine :: "8 word \<Rightarrow> machine \<Rightarrow> machine" where
  "jsiAppendToInputLine ch s =
     (let s1 = (if \<not> inputLineIteratorVar s
                then s\<lparr>inputLineIteratorVar := True, inputLineLength := int (length (inputLine s))\<rparr>
                else s)
      in s1\<lparr>inputLine := inputLine s1 @ [ch], inputLineLength := inputLineLength s1 + 1\<rparr>)"

definition jsiPacketExit :: "machine \<Rightarrow> machine" where
  "jsiPacketExit s =
     (let s1 = jsiInputLineCursorMoved
                 (s\<lparr>inputState := IPS_NONE, inputPacketLength := 0, PK_TIMEOUT := None\<rparr>)
      in s1\<lparr>inputLine := (case PK_IL s1 of None \<Rightarrow> [] | Some l \<Rightarrow> l), PK_IL := None\<rparr>)"

definition jsiPacketTimeoutHandler :: "config \<Rightarrow> machine \<Rightarrow> machine option" where
  "jsiPacketTimeoutHandler cfg s =
     (case jsiConsolePrintChar cfg ASCII_NAK s of
        None \<Rightarrow> None
      | Some s1 \<Rightarrow> Some (jsiPacketExit s1))"

text \<open>jsiSetTimeout(functionPtr, milliseconds): the timer it creates.\<close>

definition jsiSetTimeout :: "native_callback \<Rightarrow> int \<Rightarrow> TimerDescriptor" where
  "jsiSetTimeout functionPtr milliseconds = \<lparr>cb = functionPtr, timeRemaining = milliseconds\<rparr>"

definition jsiPacketStart :: "machine \<Rightarrow> machine" where
  "jsiPacketStart s =
     (let s1 = jsiInputLineCursorMoved (s\<lparr>inputState := IPS_PACKET_TRANSFER_BYTE0\<rparr>)
      in s1\<lparr>PK_IL := Some (inputLine s1),
            PK_TIMEOUT := Some (jsiSetTimeout PacketTimeoutHandler 5000),
            inputLine := []\<rparr>)"

definition jsiPacketProcess :: "config \<Rightarrow> machine \<Rightarrow> machine option" where
  "jsiPacketProcess cfg s =
     (let packetType = inputPacketLength s AND PT_TYPE_MASK;
          s1 = s\<lparr>inputPacketLength := inputPacketLength s AND PT_SIZE_MASK\<rparr>
      in case
           (if packetType = PT_TYPE_EVAL then jsiPacketEval cfg s1
            else if packetType = PT_TYPE_EVENT then jsiPacketEvent cfg s1
            else if packetType = PT_TYPE_FILE_RECV then jsiPacketFileRecv cfg s1
            else if packetType = PT_TYPE_FILE_SEND then jsiPacketFileSend cfg s1
            else if packetType = PT_TYPE_DATA then jsiPacketData cfg s1
            else jsiConsolePrintChar cfg ASCII_NAK s1) of
           None \<Rightarrow> None
         | Some s2 \<Rightarrow> Some (jsiPacketExit s2))"

definition jsiHandleConsoleChar :: "config \<Rightarrow> 8 word \<Rightarrow> machine \<Rightarrow> machine option" where
  "jsiHandleConsoleChar cfg ch s0 =
     (if jsiPasswordProtected cfg s0 then jsiPasswordEntry cfg ch s0
      else
        (let s = (if ch = 3 \<and> IS_PACKET_TRANSFER (inputState s0)
                  then s0\<lparr>execute := execute s0 AND NOT (EXEC_CTRL_C_MASK cfg)\<rparr>
                  else s0)
         in
           if inputState s = IPS_PACKET_TRANSFER_BYTE0 then
             Some ((if inputLine s = []
                    then s\<lparr>jsiStatus := jsiStatus s AND NOT (JSIS_ECHO_OFF_FOR_LINE cfg)\<rparr>
                    else s)
                   \<lparr>inputPacketLength := push_bit 8 (ucast ch),
                    inputState := IPS_PACKET_TRANSFER_BYTE1\<rparr>)
           else if inputState s = IPS_PACKET_TRANSFER_BYTE1 then
             (let s1 = s\<lparr>inputPacketLength := inputPacketLength s OR ucast ch\<rparr>
              in if inputPacketLength s1 AND PT_SIZE_MASK = 0
                 then jsiPacketProcess cfg s1
                 else Some (s1\<lparr>inputState := IPS_PACKET_TRANSFER_DATA\<rparr>))
           else if inputState s = IPS_PACKET_TRANSFER_DATA then
             (let s1 = jsiAppendToInputLine ch s
              in if inputLineLength s1 \<ge> uint (inputPacketLength s1 AND PT_SIZE_MASK)
                 then jsiPacketProcess cfg s1
                 else Some s1)
           else if ch = 0 then Some (s\<lparr>inputState := IPS_NONE\<rparr>)
           else if ch = 1 then
             (if inputState s = IPS_HAD_DLE then Some (jsiPacketStart s) else Some s)
           else if ch = 3 then Some s
           else if ch = 5 then
             (if inputLine s = [] then jsiConsolePrintString cfg (versionBanner cfg) s
              else Some s)
           else if ch = 16 then
             Some ((if inputLine s = []
                    then s\<lparr>jsiStatus := jsiStatus s OR JSIS_ECHO_OFF_FOR_LINE cfg\<rparr>
                    else s)
                   \<lparr>inputState := IPS_HAD_DLE\<rparr>)
           else if ch = 27 then Some (s\<lparr>inputState := IPS_HAD_27\<rparr>)
           else jsiLineEditing cfg ch s))"

text \<open>The loop of jsiHandleIOEventForConsole over the bytes of one event.\<close>

fun jsiHandleConsoleChars :: "config \<Rightarrow> 8 word list \<Rightarrow> machine \<Rightarrow> machine option" where
  "jsiHandleConsoleChars cfg [] s = Some s"
| "jsiHandleConsoleChars cfg (ch # chs) s =
     (case jsiHandleConsoleChar cfg ch s of
        None \<Rightarrow> None
      | Some s1 \<Rightarrow> jsiHandleConsoleChars cfg chs s1)"

definition jsiHandleIOEventForConsole :: "config \<Rightarrow> 8 word list \<Rightarrow> machine \<Rightarrow> machine option" where
  "jsiHandleIOEventForConsole cfg eventData s =
     (case jsiHandleConsoleChars cfg eventData (jsiSetBusy cfg (BUSY_INTERACTIVE cfg) True s) of
        None \<Rightarrow> None
      | Some s1 \<Rightarrow> Some (jsiSetBusy cfg (BUSY_INTERACTIVE cfg) False s1))"

text \<open>
  The timer phase of jsiIdle for the packet timer, a timer with no interval and no
  watch: the time that passed since the last pass is taken off its time; when the
  result is not positive its callback runs and the timer is removed.
\<close>

definition jsiIdleTimers :: "config \<Rightarrow> int \<Rightarrow> machine \<Rightarrow> machine option" where
  "jsiIdleTimers cfg timePassed s =
     (case PK_TIMEOUT s of
        None \<Rightarrow> Some s
      | Some t \<Rightarrow>
          (let timerTime = timeRemaining t - timePassed;
               s1 = s\<lparr>PK_TIMEOUT := Some (t\<lparr>timeRemaining := timerTime\<rparr>)\<rparr>
           in if timerTime \<le> 0 then
                (case cb t of
                   PacketTimeoutHandler \<Rightarrow>
                     (case jsiPacketTimeoutHandler cfg s1 of
                        None \<Rightarrow> None
                      | Some s2 \<Rightarrow> Some (s2\<lparr>PK_TIMEOUT := None\<rparr>)))
              else Some s1))"

section \<open>The event phase of jsiIdle\<close>

text \<open>
  Modelled from the spec: jsiIdle hands the events it pops to collaborators that are
  not among the sources. They are parameters: the macro DEVICE_IS_SERIAL, whether
  jsiGetClassNameFromDevice gives an object, whether jsvNewStringOfLength gives a
  string, jswrap_stream_pushData (which runs the data handlers of a serial device), and
  \<open>jsiOtherEvent\<close> for the remaining branches of the event loop (serial status, EV_CUSTOM
  and pin watches, where callbacks run). The counters loopsIdling and wasBusy are left
  out.
\<close>

record idle_hooks =
  DEVICE_IS_SERIAL :: "IOEventFlags \<Rightarrow> bool"
  jsiUsartClassIsObject :: "IOEventFlags \<Rightarrow> machine \<Rightarrow> bool"
  jsvNewStringOfLength :: "nat \<Rightarrow> machine \<Rightarrow> bool"
  jswrap_stream_pushData :: "IOEventFlags \<Rightarrow> 8 word list \<Rightarrow> machine \<Rightarrow> machine option"
  jsiOtherEvent :: "IOEventFlags \<Rightarrow> 8 word list \<Rightarrow> machine \<Rightarrow> machine option"

type_synonym IOEvent = "IOEventFlags \<times> 8 word list"

text \<open>
  The loop of jsiHandleIOEventForSerial, \<open>while (jshIsTopEvent(...))\<close>: \<open>d\<close> is the
  caller's array with its length, \<open>str\<close> the string collected so far, and \<open>popped\<close> lists
  the events that jshPopIOEvent has taken, in the order of the calls.
\<close>

partial_function (option) jsiSerialMore ::
  "config \<Rightarrow> IOEventFlags \<Rightarrow> 8 word list \<Rightarrow> 8 word list \<Rightarrow> IOEvent list \<Rightarrow> machine \<Rightarrow>
     (8 word list \<times> 8 word list \<times> IOEvent list \<times> machine) option" where
  "jsiSerialMore cfg eventType d str popped s =
     (if jshIsTopEvent cfg eventType s then
        (case fst (snd (jshPopIOEvent cfg s)) of
           None \<Rightarrow>
             jsiSerialMore cfg eventType d (str @ d) popped (snd (snd (jshPopIOEvent cfg s)))
         | Some d1 \<Rightarrow>
             jsiSerialMore cfg eventType d1 (str @ d1)
               (popped @ [(fst (jshPopIOEvent cfg s), d1)]) (snd (snd (jshPopIOEvent cfg s))))
      else Some (d, str, popped, s))"

declare jsiSerialMore.simps [code]

text \<open>
  jsiHandleIOEventForSerial returns \<open>length+2\<close> for the last event it popped (the sum
  \<open>eventsHandled\<close> is computed and not used); the second component lists the events it
  popped.
\<close>

definition jsiHandleIOEventForSerial ::
  "config \<Rightarrow> idle_hooks \<Rightarrow> IOEventFlags \<Rightarrow> 8 word list \<Rightarrow> machine \<Rightarrow>
     (int \<times> IOEvent list \<times> machine) option" where
  "jsiHandleIOEventForSerial cfg hk eventFlags d s =
     (if length d \<noteq> 0 \<and> jsvNewStringOfLength hk (length d) s then
        (case jsiSerialMore cfg (IOEVENTFLAGS_GETTYPE cfg eventFlags) d d [] s of
           None \<Rightarrow> None
         | Some (d1, str, popped, s1) \<Rightarrow>
             (case jswrap_stream_pushData hk (IOEVENTFLAGS_GETTYPE cfg eventFlags) str s1 of
                None \<Rightarrow> None
              | Some s2 \<Rightarrow> Some (int (length d1) + 2, popped, s2)))
      else Some (int (length d) + 2, [], s))"

text \<open>
  The event loop of jsiIdle,
  \<open>while ((maxEvents--)>0 && ((eventFlags=jshPopIOEvent(...))!=EV_NONE))\<close>, with the list
  of the events popped so far.
\<close>

partial_function (option) jsiIdleEvents ::
  "config \<Rightarrow> idle_hooks \<Rightarrow> int \<Rightarrow> IOEvent list \<Rightarrow> machine \<Rightarrow> (IOEvent list \<times> machine) option" where
  "jsiIdleEvents cfg hk maxEvents popped s =
     (if maxEvents > 0 then
        (if fst (jshPopIOEvent cfg s) = EV_NONE cfg then
           Some (popped @
                   (case fst (snd (jshPopIOEvent cfg s)) of
                      None \<Rightarrow> []
                    | Some d \<Rightarrow> [(fst (jshPopIOEvent cfg s), d)]),
                 snd (snd (jshPopIOEvent cfg s)))
         else
           (let eventFlags = fst (jshPopIOEvent cfg s);
                d = (case fst (snd (jshPopIOEvent cfg s)) of None \<Rightarrow> [] | Some d \<Rightarrow> d);
                s2 = jsiSetBusy cfg (BUSY_INTERACTIVE cfg) True (snd (snd (jshPopIOEvent cfg s)));
                eventType = IOEVENTFLAGS_GETTYPE cfg eventFlags
            in if eventType = consoleDevice s2 then
                 (case jsiHandleIOEventForConsole cfg d s2 of
                    None \<Rightarrow> None
                  | Some s3 \<Rightarrow>
                      jsiIdleEvents cfg hk (maxEvents - 1) (popped @ [(eventFlags, d)]) s3)
               else if DEVICE_IS_SERIAL hk eventType then
                 (if jsiUsartClassIsObject hk eventType s2 then
                    (case jsiHandleIOEventForSerial cfg hk eventFlags d s2 of
                       None \<Rightarrow> None
                     | Some (r, extra, s3) \<Rightarrow>
                         jsiIdleEvents cfg hk (maxEvents - 1 - r)
                           (popped @ [(eventFlags, d)] @ extra) s3)
                  else jsiIdleEvents cfg hk (maxEvents - 1) (popped @ [(eventFlags, d)]) s2)
               else
                 (case jsiOtherEvent hk eventFlags d s2 of
                    None \<Rightarrow> None
                  | Some s3 \<Rightarrow>
                      jsiIdleEvents cfg hk (maxEvents - 1) (popped @ [(eventFlags, d)]) s3)))
      else Some (popped, s))"

declare jsiIdleEvents.simps [code]

text \<open>The event phase of one pass: \<open>maxEvents\<close> is what jshGetEventsUsed returns.\<close>

definition jsiIdleDispatch ::
  "config \<Rightarrow> idle_hooks \<Rightarrow> machine \<Rightarrow> (IOEvent list \<times> machine) option" where
  "jsiIdleDispatch cfg hk s = jsiIdleEvents cfg hk (jshGetEventsUsed cfg s) [] s"

section \<open>The packet header and the states of a packet in progress\<close>

text \<open>
  The two bytes after DLE SOH as the 16-bit big-endian value the wire format describes.
\<close>

definition packetHeader :: "8 word \<Rightarrow> 8 word \<Rightarrow> 16 word" where
  "packetHeader hi lo = push_bit 8 (ucast hi) OR ucast lo"

text \<open>
  The machine that is expected while a packet started from \<open>s0\<close> is in progress: the
  state \<open>st\<close> of the state machine, the header accumulated so far, the payload \<open>q\<close>
  accumulated in the input line, and whether a Ctrl-C byte was among the bytes handled.
\<close>

definition packetState ::
  "config \<Rightarrow> machine \<Rightarrow> InputState \<Rightarrow> 16 word \<Rightarrow> bool \<Rightarrow> 8 word list \<Rightarrow> machine" where
  "packetState cfg s0 st w ctrlC q =
     (jsiPacketStart s0)
       \<lparr>jsiStatus := jsiStatus s0 AND NOT (JSIS_ECHO_OFF_FOR_LINE cfg),
        execute := (if ctrlC then execute s0 AND NOT (EXEC_CTRL_C_MASK cfg) else execute s0),
        inputPacketLength := w,
        inputState := st,
        inputLine := q,
        inputLineIteratorVar := (q \<noteq> []),
        inputLineLength := (if q = [] then - 1 else int (length q))\<rparr>"

section \<open>The event buffer as a queue of events\<close>

text \<open>
  \<open>ring buf start n\<close> is the \<open>n\<close> bytes of the circular buffer from position \<open>start\<close> on,
  \<open>ringWrite buf h xs\<close> the buffer with \<open>xs\<close> written from position \<open>h\<close> on. An event with
  flags \<open>evt\<close> and payload \<open>d\<close> takes the bytes \<open>encodeEvent (evt, d)\<close>: length, flags,
  payload. \<open>ioQueue cfg s evs\<close> says that the bytes between ioTail and ioHead are the
  events \<open>evs\<close>, oldest first.
\<close>

definition ring :: "'a list \<Rightarrow> nat \<Rightarrow> nat \<Rightarrow> 'a list" where
  "ring buf start n = map (\<lambda>j. buf ! ((start + j) mod length buf)) [0..<n]"

fun ringWrite :: "'a list \<Rightarrow> nat \<Rightarrow> 'a list \<Rightarrow> 'a list" where
  "ringWrite buf h [] = buf"
| "ringWrite buf h (x # xs) = ringWrite (buf[h mod length buf := x]) (h + 1) xs"

fun encodeEvent :: "IOEventFlags \<times> 8 word list \<Rightarrow> 8 word list" where
  "encodeEvent (evt, d) = of_nat (length d) # evt # d"

definition ioQueue :: "config \<Rightarrow> machine \<Rightarrow> (IOEventFlags \<times> 8 word list) list \<Rightarrow> bool" where
  "ioQueue cfg s evs \<longleftrightarrow>
     length (ioBuffer s) = IOBUFFERMASK cfg + 1 \<and>
     ioTail s < IOBUFFERMASK cfg + 1 \<and>
     length (concat (map encodeEvent evs)) < IOBUFFERMASK cfg + 1 \<and>
     ioHead s = (ioTail s + length (concat (map encodeEvent evs))) mod (IOBUFFERMASK cfg + 1) \<and>
     ring (ioBuffer s) (ioTail s) (length (concat (map encodeEvent evs))) =
       concat (map encodeEvent evs) \<and>
     list_all (\<lambda>e. length (snd e) < 256) evs"

text \<open>
  Sequences of jshPushEvent and jshPopIOEvent calls, what each call returns, and the
  first-in first-out queue of the specification that the calls are compared with: a
  push appends the event it is given, a pop takes the oldest event, and a pop on the
  empty queue returns EV_NONE.
\<close>

datatype io_call = PushEvent IOEventFlags "8 word list" | PopEvent

datatype io_result = Pushed bool | Popped IOEventFlags "8 word list option"

fun io_run :: "config \<Rightarrow> io_call list \<Rightarrow> machine \<Rightarrow> io_result list" where
  "io_run cfg [] s = []"
| "io_run cfg (PushEvent evt d # cs) s =
     (case jshPushEvent cfg evt d (length d) s of (ok, s') \<Rightarrow> Pushed ok # io_run cfg cs s')"
| "io_run cfg (PopEvent # cs) s =
     (case jshPopIOEvent cfg s of (evt, out, s') \<Rightarrow> Popped evt out # io_run cfg cs s')"

fun fifo_run ::
  "config \<Rightarrow> io_call list \<Rightarrow> (IOEventFlags \<times> 8 word list) list \<Rightarrow> io_result list" where
  "fifo_run cfg [] q = []"
| "fifo_run cfg (PushEvent evt d # cs) q = Pushed True # fifo_run cfg cs (q @ [(evt, d)])"
| "fifo_run cfg (PopEvent # cs) [] = Popped (EV_NONE cfg) None # fifo_run cfg cs []"
| "fifo_run cfg (PopEvent # cs) ((evt, d) # q) = Popped evt (Some d) # fifo_run cfg cs q"

text \<open>The contract of jshPushEvent (its assertion) for the pushes of a sequence.\<close>

fun io_call_ok :: "config \<Rightarrow> io_call \<Rightarrow> bool" where
  "io_call_ok cfg (PushEvent evt d) \<longleftrightarrow> length d \<le> IOEVENT_MAX_LEN cfg"
| "io_call_ok cfg PopEvent \<longleftrightarrow> True"

section \<open>The transmit buffer as a queue of items\<close>

text \<open>
  \<open>txQueue cfg s items\<close> says that the slots between txTail and txHead hold \<open>items\<close>,
  oldest first. \<open>forDevice\<close> is the test jshGetCharToTransmit applies to an item, and
  \<open>noFlowControlPending\<close> says that no device has an XOFF or XON byte waiting to be sent
  ahead of its data.
\<close>

definition txQueue :: "config \<Rightarrow> machine \<Rightarrow> TxBufferItem list \<Rightarrow> bool" where
  "txQueue cfg s items \<longleftrightarrow>
     length (txBuffer s) = TXBUFFERMASK cfg + 1 \<and>
     txTail s < TXBUFFERMASK cfg + 1 \<and>
     length items < TXBUFFERMASK cfg + 1 \<and>
     txHead s = (txTail s + length items) mod (TXBUFFERMASK cfg + 1) \<and>
     ring (txBuffer s) (txTail s) (length items) = items"

definition forDevice :: "config \<Rightarrow> IOEventFlags \<Rightarrow> TxBufferItem \<Rightarrow> bool" where
  "forDevice cfg device x \<longleftrightarrow> IOEVENTFLAGS_GETTYPE cfg (flags x) = device"

definition noFlowControlPending :: "config \<Rightarrow> machine \<Rightarrow> bool" where
  "noFlowControlPending cfg s \<longleftrightarrow>
     unat (EV_SERIAL_MAX cfg - EV_SERIAL_DEVICE_STATE_START cfg) < length (jshSerialDeviceStates s) \<and>
     list_all (\<lambda>st. st AND SDS_XOFF_PENDING = 0 \<and> st AND SDS_XON_PENDING = 0)
       (jshSerialDeviceStates s)"

text \<open>
  Sequences of jshTransmit and jshGetCharToTransmit calls with the values the latter
  return, and the queue of the specification that they are compared with: a transmit
  appends an item, and a request for a device takes the oldest item of that device out
  of the queue, or returns -1 when there is none. \<open>tx_fits\<close> says that no transmit of
  the sequence finds the buffer full, and \<open>tx_call_ok\<close> that a transmit is for a device
  that goes through the buffer (not a loopback device, not EV_NONE).
\<close>

datatype tx_call = Transmit IOEventFlags "8 word" | GetCharToTransmit IOEventFlags

fun tx_run :: "config \<Rightarrow> tx_call list \<Rightarrow> machine \<Rightarrow> (int list \<times> machine) option" where
  "tx_run cfg [] s = Some ([], s)"
| "tx_run cfg (Transmit device d # cs) s =
     (case jshTransmit cfg device d s of
        None \<Rightarrow> None
      | Some s1 \<Rightarrow> tx_run cfg cs s1)"
| "tx_run cfg (GetCharToTransmit device # cs) s =
     (case jshGetCharToTransmit cfg device s of
        None \<Rightarrow> None
      | Some (c, s1) \<Rightarrow>
          (case tx_run cfg cs s1 of
             None \<Rightarrow> None
           | Some (r, s2) \<Rightarrow> Some (c # r, s2)))"

fun txfifo_run ::
  "config \<Rightarrow> tx_call list \<Rightarrow> TxBufferItem list \<Rightarrow> int list \<times> TxBufferItem list" where
  "txfifo_run cfg [] q = ([], q)"
| "txfifo_run cfg (Transmit device d # cs) q =
     txfifo_run cfg cs (q @ [\<lparr>flags = device, data = d\<rparr>])"
| "txfifo_run cfg (GetCharToTransmit device # cs) q =
     (case List.extract (forDevice cfg device) q of
        None \<Rightarrow> (- 1 # fst (txfifo_run cfg cs q), snd (txfifo_run cfg cs q))
      | Some (pre, x, post) \<Rightarrow>
          (uint (data x) # fst (txfifo_run cfg cs (pre @ post)),
           snd (txfifo_run cfg cs (pre @ post))))"

fun tx_call_ok :: "config \<Rightarrow> tx_call \<Rightarrow> bool" where
  "tx_call_ok cfg (Transmit device d) \<longleftrightarrow>
     device \<noteq> EV_LOOPBACKA cfg \<and> device \<noteq> EV_LOOPBACKB cfg \<and> device \<noteq> EV_NONE cfg"
| "tx_call_ok cfg (GetCharToTransmit device) \<longleftrightarrow> True"

fun tx_fits :: "config \<Rightarrow> tx_call list \<Rightarrow> TxBufferItem list \<Rightarrow> bool" where
  "tx_fits cfg [] q \<longleftrightarrow> True"
| "tx_fits cfg (Transmit device d # cs) q \<longleftrightarrow>
     length q < TXBUFFERMASK cfg \<and> tx_fits cfg cs (q @ [\<lparr>flags = device, data = d\<rparr>])"
| "tx_fits cfg (GetCharToTransmit device # cs) q \<longleftrightarrow>
     (case List.extract (forDevice cfg device) q of
        None \<Rightarrow> tx_fits cfg cs q
      | Some (pre, x, post) \<Rightarrow> tx_fits cfg cs (pre @ post))"

section \<open>Handlers that push events\<close>

text \<open>
  What the event phase of jsiIdle is proved under. \<open>queueExtended cfg s s'\<close>: from \<open>s\<close> to
  \<open>s'\<close> the console device is the same and the event queue has kept its events and has
  got new ones behind them (none, one or more). \<open>pushesEvents cfg h\<close>: that holds for
  every run of the collaborator \<open>h\<close> that returns, when the console is not on a loopback
  device (there a character printed on the console becomes a character event, which
  may be added to the last event of the queue). \<open>handlersPushEvents\<close> says it of all the
  collaborators that run while events are handled.
\<close>

definition notLoopback :: "config \<Rightarrow> machine \<Rightarrow> bool" where
  "notLoopback cfg s \<longleftrightarrow>
     consoleDevice s \<noteq> EV_LOOPBACKA cfg \<and> consoleDevice s \<noteq> EV_LOOPBACKB cfg"

definition queueExtended :: "config \<Rightarrow> machine \<Rightarrow> machine \<Rightarrow> bool" where
  "queueExtended cfg s s' \<longleftrightarrow>
     consoleDevice s' = consoleDevice s \<and>
     (\<forall>q. ioQueue cfg s q \<longrightarrow> (\<exists>new. ioQueue cfg s' (q @ new)))"

definition pushesEvents :: "config \<Rightarrow> (machine \<Rightarrow> machine option) \<Rightarrow> bool" where
  "pushesEvents cfg h \<longleftrightarrow>
     (\<forall>s s'. notLoopback cfg s \<longrightarrow> h s = Some s' \<longrightarrow> queueExtended cfg s s')"

definition handlersPushEvents :: "config \<Rightarrow> idle_hooks \<Rightarrow> bool" where
  "handlersPushEvents cfg hk \<longleftrightarrow>
     pushesEvents cfg (\<lambda>s. Some (jshBusyIdle cfg s)) \<and>
     (\<forall>ch. pushesEvents cfg (jsiPasswordEntry cfg ch)) \<and>
     (\<forall>ch. pushesEvents cfg (jsiLineEditing cfg ch)) \<and>
     pushesEvents cfg (jsiPacketEval cfg) \<and>
     pushesEvents cfg (jsiPacketEvent cfg) \<and>
     pushesEvents cfg (jsiPacketFileRecv cfg) \<and>
     pushesEvents cfg (jsiPacketFileSend cfg) \<and>
     pushesEvents cfg (jsiPacketData cfg) \<and>
     (\<forall>eventType str. pushesEvents cfg (jswrap_stream_pushData hk eventType str)) \<and>
     (\<forall>eventFlags d. pushesEvents cfg (jsiOtherEvent hk eventFlags d))"

section \<open>A small board for concrete runs\<close>

text \<open>
  The globals as their initialisers leave them, with buffers of the sizes the masks
  give, and one configuration with an eight-slot transmit buffer and a 32-byte event
  buffer. In it the transmit interrupt that runs during jshBusyIdle takes the item at
  the tail, and the collaborators of the console acknowledge and return.
\<close>

definition initial :: "config \<Rightarrow> machine" where
  "initial cfg =
     \<lparr>txBuffer = replicate (TXBUFFERMASK cfg + 1) \<lparr>flags = 0, data = 0\<rparr>,
      txHead = 0, txTail = 0,
      jshSerialFlowControlWasSet = False,
      jshSerialDeviceStates = replicate (JSHSERIALDEVICESTATUSES cfg) SDS_NONE,
      jshSerialDeviceCTSPins = replicate (JSHSERIALDEVICESTATUSES cfg) (PIN_UNDEFINED cfg),
      ioBuffer = replicate (IOBUFFERMASK cfg + 1) 0,
      ioHead = 0, ioLastHead = 0, ioTail = 0,
      jsErrorFlags = 0,
      jshIsInInterrupt = False,
      consoleDevice = EV_SERIAL_DEVICE_STATE_START cfg,
      pinBusyIndicator = PIN_UNDEFINED cfg,
      business = 0,
      jsiStatus = 0,
      execute = 0,
      inputLine = [],
      inputLineIteratorVar = False,
      inputLineLength = - 1,
      inputState = IPS_NONE,
      inputPacketLength = 0,
      PK_IL = None,
      PK_TIMEOUT = None,
      hal = []\<rparr>"

definition board0 :: config where
  "board0 =
     \<lparr>TXBUFFERMASK = 7, IOBUFFERMASK = 31, IOEVENT_MAX_LEN = 12,
      IOBUFFER_XOFF = 24, IOBUFFER_XON = 12,
      EV_NONE = 0, EV_TYPE_MASK = 0x3F,
      EV_LOOPBACKA = 17, EV_LOOPBACKB = 18, EV_LIMBO = 19,
      EV_SERIAL_DEVICE_STATE_START = 20, EV_SERIAL_MAX = 21,
      PIN_UNDEFINED = 0xFF,
      JSERR_RX_FIFO_FULL = 1, JSERR_BUFFER_FULL = 2,
      BUSY_TRANSMIT = 2, BUSY_INTERACTIVE = 1,
      EXEC_CTRL_C = 0x10, EXEC_CTRL_C_MASK = 0x30,
      JSIS_PASSWORD_PROTECTED = 0x100, JSIS_ECHO_OFF_FOR_LINE = 2,
      jshBusyIdle = (\<lambda>s. s\<lparr>txTail := (txTail s + 1) AND 7\<rparr>),
      jswOnCharEvent = (\<lambda>channel ch. False),
      versionBanner = [0x45, 0x0A],
      jsiPasswordEntry = (\<lambda>ch s. Some s),
      jsiLineEditing = (\<lambda>ch s. Some (s\<lparr>inputState := IPS_NONE\<rparr>)),
      jsiPacketEval = Some, jsiPacketEvent = Some, jsiPacketFileRecv = Some,
      jsiPacketFileSend = Some, jsiPacketData = Some\<rparr>"

definition board :: config where
  "board =
     board0\<lparr>jsiPacketEval := jsiConsolePrintChar board0 ASCII_ACK,
            jsiPacketEvent := jsiConsolePrintChar board0 ASCII_ACK,
            jsiPacketFileRecv := jsiConsolePrintChar board0 ASCII_ACK,
            jsiPacketFileSend := jsiConsolePrintChar board0 ASCII_ACK,
            jsiPacketData := jsiConsolePrintChar board0 ASCII_ACK\<rparr>"

text \<open>
  The board after \<open>jshTransmit(21, 0x41)\<close> and \<open>jshTransmit(20, 0x42)\<close>: two items in the
  transmit buffer, for two devices.
\<close>

definition queued :: machine where
  "queued =
     (initial board)
       \<lparr>txBuffer := [\<lparr>flags = 21, data = 0x41\<rparr>, \<lparr>flags = 20, data = 0x42\<rparr>] @
                      replicate 6 \<lparr>flags = 0, data = 0\<rparr>,
        txHead := 2,
        hal := [USARTKick 21, USARTKick 20]\<rparr>"

text \<open>
  The board after three events have been pushed: one for device 21, one for device 20
  and another one for device 21.
\<close>

definition threeEvents :: machine where
  "threeEvents =
     snd (jshPushEvent board 21 [4] 1
       (snd (jshPushEvent board 20 [3] 1
         (snd (jshPushEvent board 21 [1, 2] 2 (initial board))))))"

text \<open>
  Collaborators of the event phase for the board: the devices 20 and 21 are serial
  devices with a class object, strings can be made, the data handlers of a serial
  device do nothing, and the handler of every other event pushes one event for
  device 23. \<open>fourEvents\<close> is the board after four events have been pushed.
\<close>

definition boardHooks :: idle_hooks where
  "boardHooks =
     \<lparr>DEVICE_IS_SERIAL = (\<lambda>t. 20 \<le> t \<and> t \<le> 21),
      jsiUsartClassIsObject = (\<lambda>t s. True),
      jsvNewStringOfLength = (\<lambda>n s. True),
      jswrap_stream_pushData = (\<lambda>t str s. Some s),
      jsiOtherEvent = (\<lambda>eventFlags d s. Some (snd (jshPushEvent board 23 [9] 1 s)))\<rparr>"

definition fourEvents :: machine where
  "fourEvents =
     snd (jshPushEvent board 21 [6] 1
       (snd (jshPushEvent board 21 [5] 1
         (snd (jshPushEvent board 20 [0x41] 1
           (snd (jshPushEvent board 23 [1, 2, 3, 4] 4 (initial board))))))))"

section \<open>Flag arithmetic\<close>

lemma and_not_and_self: "(x AND NOT m) AND m = (0::'a::len word)"
  by (simp add: bit_eq_iff bit_simps)

lemma and_pow2: "(x::'a::len word) AND 2 ^ n = (if bit x n then 2 ^ n else 0)"
  by (rule bit_eqI) (auto simp: bit_simps)

lemma and_flag_cases:
  fixes st :: "8 word"
  shows "st AND 1 = (if bit st 0 then 1 else 0)"
    and "st AND 2 = (if bit st 1 then 2 else 0)"
    and "st AND 4 = (if bit st 2 then 4 else 0)"
  using and_pow2 [of st 0] and_pow2 [of st 1] and_pow2 [of st 2] by simp_all

section \<open>Flow control: XON and XOFF\<close>

lemma xoff_cond: "(st AND (SDS_XOFF_SENT OR SDS_XOFF_PENDING) = 0) \<longleftrightarrow> (st AND SDS_XOFF_SENT = 0 \<and> st AND SDS_XOFF_PENDING = 0)"
  by (simp add: bit.conj_disj_distrib or_eq_0_iff)

lemma xon_cond: "(st AND (SDS_XOFF_SENT OR SDS_XON_PENDING) = SDS_XOFF_SENT) \<longleftrightarrow> (st AND SDS_XOFF_SENT \<noteq> 0 \<and> st AND SDS_XON_PENDING = 0)"
  unfolding SDS_XOFF_SENT_def SDS_XON_PENDING_def bit.conj_disj_distrib
  by (simp add: and_flag_cases)

lemma xoff_sent_flags:
  "((st AND NOT SDS_XOFF_PENDING) OR SDS_XOFF_SENT) AND SDS_XOFF_PENDING = 0"
  "((st AND NOT SDS_XOFF_PENDING) OR SDS_XOFF_SENT) AND SDS_XOFF_SENT \<noteq> 0"
  unfolding bit.conj_disj_distrib2 and_not_and_self
  by (simp_all add: SDS_XOFF_PENDING_def SDS_XOFF_SENT_def)

lemma xon_sent_flags:
  "(st AND NOT (SDS_XON_PENDING OR SDS_XOFF_SENT)) AND SDS_XON_PENDING = 0"
  "(st AND NOT (SDS_XON_PENDING OR SDS_XOFF_SENT)) AND SDS_XOFF_SENT = 0"
  by (auto simp: bit_eq_iff bit_simps)

text \<open>
  Claim C7. For a device with flow-control state whose software XON/XOFF is enabled,
  jshSetFlowControlXON(device, false) sets XOFF_PENDING exactly when neither XOFF_SENT
  nor XOFF_PENDING is set, and jshSetFlowControlXON(device, true) sets XON_PENDING
  exactly when XOFF_SENT is set and XON_PENDING is clear; in every other case the flags
  stay as they are. jshGetCharToTransmit returns a pending XOFF (0x13) and then a
  pending XON (0x11) before it looks at the transmit buffer, which it leaves as it is:
  sending XOFF turns XOFF_PENDING into XOFF_SENT, sending XON clears XON_PENDING and
  XOFF_SENT.
\<close>

theorem flow_control_xon_xoff:
  assumes dev: "DEVICE_HAS_DEVICE_STATE cfg device"
    and st: "st = jshSerialDeviceStates s ! TO_SERIAL_DEVICE_STATE cfg device"
  shows
    "(st AND SDS_FLOW_CONTROL_XON_XOFF \<noteq> 0 \<longrightarrow>
        jshSerialDeviceStates (jshSetFlowControlXON cfg device False s) =
          (if st AND SDS_XOFF_SENT = 0 \<and> st AND SDS_XOFF_PENDING = 0
           then (jshSerialDeviceStates s)[TO_SERIAL_DEVICE_STATE cfg device := st OR SDS_XOFF_PENDING]
           else jshSerialDeviceStates s)) \<and>
     (st AND SDS_FLOW_CONTROL_XON_XOFF \<noteq> 0 \<longrightarrow>
        jshSerialDeviceStates (jshSetFlowControlXON cfg device True s) =
          (if st AND SDS_XOFF_SENT \<noteq> 0 \<and> st AND SDS_XON_PENDING = 0
           then (jshSerialDeviceStates s)[TO_SERIAL_DEVICE_STATE cfg device := st OR SDS_XON_PENDING]
           else jshSerialDeviceStates s)) \<and>
     (st AND SDS_XOFF_PENDING \<noteq> 0 \<longrightarrow>
        jshGetCharToTransmit cfg device s =
          Some (0x13, s\<lparr>jshSerialDeviceStates :=
                  (jshSerialDeviceStates s)[TO_SERIAL_DEVICE_STATE cfg device :=
                     (st AND NOT SDS_XOFF_PENDING) OR SDS_XOFF_SENT]\<rparr>) \<and>
        ((st AND NOT SDS_XOFF_PENDING) OR SDS_XOFF_SENT) AND SDS_XOFF_PENDING = 0 \<and>
        ((st AND NOT SDS_XOFF_PENDING) OR SDS_XOFF_SENT) AND SDS_XOFF_SENT \<noteq> 0) \<and>
     (st AND SDS_XOFF_PENDING = 0 \<and> st AND SDS_XON_PENDING \<noteq> 0 \<longrightarrow>
        jshGetCharToTransmit cfg device s =
          Some (0x11, s\<lparr>jshSerialDeviceStates :=
                  (jshSerialDeviceStates s)[TO_SERIAL_DEVICE_STATE cfg device :=
                     st AND NOT (SDS_XON_PENDING OR SDS_XOFF_SENT)]\<rparr>) \<and>
        (st AND NOT (SDS_XON_PENDING OR SDS_XOFF_SENT)) AND SDS_XON_PENDING = 0 \<and>
        (st AND NOT (SDS_XON_PENDING OR SDS_XOFF_SENT)) AND SDS_XOFF_SENT = 0)"
proof (intro conjI impI)
  assume fc: "st AND SDS_FLOW_CONTROL_XON_XOFF \<noteq> 0"
  show "jshSerialDeviceStates (jshSetFlowControlXON cfg device False s) =
          (if st AND SDS_XOFF_SENT = 0 \<and> st AND SDS_XOFF_PENDING = 0
           then (jshSerialDeviceStates s)[TO_SERIAL_DEVICE_STATE cfg device := st OR SDS_XOFF_PENDING]
           else jshSerialDeviceStates s)"
    using dev fc st
    by (simp add: jshSetFlowControlXON_def Let_def xoff_cond jshUSARTKick_def jshPinSetValue_def)
next
  assume fc: "st AND SDS_FLOW_CONTROL_XON_XOFF \<noteq> 0"
  show "jshSerialDeviceStates (jshSetFlowControlXON cfg device True s) =
          (if st AND SDS_XOFF_SENT \<noteq> 0 \<and> st AND SDS_XON_PENDING = 0
           then (jshSerialDeviceStates s)[TO_SERIAL_DEVICE_STATE cfg device := st OR SDS_XON_PENDING]
           else jshSerialDeviceStates s)"
    using dev fc st
    by (simp add: jshSetFlowControlXON_def Let_def xon_cond jshUSARTKick_def jshPinSetValue_def)
next
  assume "st AND SDS_XOFF_PENDING \<noteq> 0"
  then show "jshGetCharToTransmit cfg device s =
          Some (0x13, s\<lparr>jshSerialDeviceStates :=
                  (jshSerialDeviceStates s)[TO_SERIAL_DEVICE_STATE cfg device :=
                     (st AND NOT SDS_XOFF_PENDING) OR SDS_XOFF_SENT]\<rparr>)"
    using dev st by (simp add: jshGetCharToTransmit_def)
next
  assume "st AND SDS_XOFF_PENDING = 0 \<and> st AND SDS_XON_PENDING \<noteq> 0"
  then show "jshGetCharToTransmit cfg device s =
          Some (0x11, s\<lparr>jshSerialDeviceStates :=
                  (jshSerialDeviceStates s)[TO_SERIAL_DEVICE_STATE cfg device :=
                     st AND NOT (SDS_XON_PENDING OR SDS_XOFF_SENT)]\<rparr>)"
    using dev st by (simp add: jshGetCharToTransmit_def)
qed (rule xoff_sent_flags xon_sent_flags)+

theorem flow_control_xon_xoff_witness:
  "jshSerialDeviceStates
     (jshSetFlowControlXON board 20 False
        ((initial board)\<lparr>jshSerialDeviceStates := [SDS_FLOW_CONTROL_XON_XOFF, 0]\<rparr>)) = [9, 0] \<and>
   jshSerialDeviceStates
     (jshSetFlowControlXON board 20 True
        ((initial board)\<lparr>jshSerialDeviceStates := [12, 0]\<rparr>)) = [14, 0] \<and>
   jshGetCharToTransmit board 20 ((initial board)\<lparr>jshSerialDeviceStates := [9, 0]\<rparr>) =
     Some (0x13, (initial board)\<lparr>jshSerialDeviceStates := [12, 0]\<rparr>) \<and>
   jshGetCharToTransmit board 20 ((initial board)\<lparr>jshSerialDeviceStates := [14, 0]\<rparr>) =
     Some (0x11, (initial board)\<lparr>jshSerialDeviceStates := [8, 0]\<rparr>)"
proof -
  have dev: "DEVICE_HAS_DEVICE_STATE board 20"
    by (simp add: DEVICE_HAS_DEVICE_STATE_def board_def board0_def)
  have idx: "TO_SERIAL_DEVICE_STATE board 20 = 0"
    by (simp add: TO_SERIAL_DEVICE_STATE_def board_def board0_def)
  show ?thesis
    using flow_control_xon_xoff [OF dev refl, of "(initial board)\<lparr>jshSerialDeviceStates := [SDS_FLOW_CONTROL_XON_XOFF, 0]\<rparr>"]
      flow_control_xon_xoff [OF dev refl, of "(initial board)\<lparr>jshSerialDeviceStates := [12, 0]\<rparr>"]
      flow_control_xon_xoff [OF dev refl, of "(initial board)\<lparr>jshSerialDeviceStates := [9, 0]\<rparr>"]
      flow_control_xon_xoff [OF dev refl, of "(initial board)\<lparr>jshSerialDeviceStates := [14, 0]\<rparr>"]
    by (simp add: idx SDS_FLOW_CONTROL_XON_XOFF_def SDS_XOFF_SENT_def SDS_XOFF_PENDING_def SDS_XON_PENDING_def)
qed



lemma and_not_idem: "(x AND NOT m) AND NOT m = (x AND NOT m :: 'a::len word)"
  by (simp add: bit_eq_iff bit_simps)

lemma byte1_ctrl_c_len: "((x :: 16 word) OR 3) AND PT_SIZE_MASK \<noteq> 0"
proof
  assume "(x OR 3) AND PT_SIZE_MASK = 0"
  then have "bit ((x OR 3) AND PT_SIZE_MASK) 0 = bit (0::16 word) 0" by simp
  then show False by (simp add: bit_simps PT_SIZE_MASK_def)
qed

lemma IS_PACKET_TRANSFER_iff:
  "IS_PACKET_TRANSFER st \<longleftrightarrow>
     st = IPS_PACKET_TRANSFER_BYTE0 \<or> st = IPS_PACKET_TRANSFER_BYTE1 \<or> st = IPS_PACKET_TRANSFER_DATA"
  by (cases st) (simp_all add: IS_PACKET_TRANSFER_def)

section \<open>Ctrl-C during a packet transfer\<close>

text \<open>
  Claim C10 as it is written fails: a Ctrl-C flag that is already latched is not
  cleared by the next byte handled in a packet-transfer state when that byte is not
  0x03. With EXEC_CTRL_C latched, the byte 0x41 handled in IPS_PACKET_TRANSFER_DATA
  leaves the flag set.
\<close>

theorem ctrl_c_latched_counterexample:
  "IS_PACKET_TRANSFER
     (inputState ((initial board)\<lparr>inputState := IPS_PACKET_TRANSFER_DATA,
                                  inputPacketLength := 0x2005, execute := 0x10\<rparr>)) \<and>
   map_option inputState
     (jsiHandleConsoleChar board 0x41
        ((initial board)\<lparr>inputState := IPS_PACKET_TRANSFER_DATA,
                          inputPacketLength := 0x2005, execute := 0x10\<rparr>)) =
     Some IPS_PACKET_TRANSFER_DATA \<and>
   map_option execute
     (jsiHandleConsoleChar board 0x41
        ((initial board)\<lparr>inputState := IPS_PACKET_TRANSFER_DATA,
                          inputPacketLength := 0x2005, execute := 0x10\<rparr>)) =
     Some (EXEC_CTRL_C board)"
  by (simp add: IS_PACKET_TRANSFER_iff jsiHandleConsoleChar_def jsiPasswordProtected_def
      initial_def board_def board0_def jsiAppendToInputLine_def PT_SIZE_MASK_def Let_def)

lemma other_byte_keeps_ctrl_c:
  assumes np: "\<not> jsiPasswordProtected cfg s"
    and ch: "ch \<noteq> 3"
    and c: "inputState s = IPS_PACKET_TRANSFER_BYTE0 \<or>
            inputState s = IPS_PACKET_TRANSFER_BYTE1 \<and>
              (inputPacketLength s OR ucast ch) AND PT_SIZE_MASK \<noteq> 0 \<or>
            inputState s = IPS_PACKET_TRANSFER_DATA \<and>
              inputLineLength (jsiAppendToInputLine ch s) < uint (inputPacketLength s AND PT_SIZE_MASK)"
  shows "\<exists>s'. jsiHandleConsoleChar cfg ch s = Some s' \<and> execute s' = execute s \<and>
              IS_PACKET_TRANSFER (inputState s')"
  using np ch c
  by (auto simp: jsiHandleConsoleChar_def IS_PACKET_TRANSFER_iff Let_def jsiAppendToInputLine_def)

text \<open>
  Claim C10, amended. In every packet-transfer state jsiCtrlC returns without effect.
  When the console is not password protected and the byte 0x03 is handled in a
  packet-transfer state, the Ctrl-C flags are cleared before anything else is done with
  the byte: handling it gives what handling it with the flags already clear gives, and
  whenever the byte does not complete the packet the machine is left in a
  packet-transfer state with the Ctrl-C flags clear. A byte \<open>ch\<close> other than 0x03 that
  does not complete the packet (any byte in IPS_PACKET_TRANSFER_BYTE0, a second header
  byte that gives a length other than 0, a payload byte before the last) leaves
  \<open>execute\<close>, and so a latched Ctrl-C flag, as it is, and the machine in a
  packet-transfer state. A byte that completes the packet runs the body of the packet
  type, which is a parameter here and may do to \<open>execute\<close> what it likes.
\<close>

theorem ctrl_c_ignored_in_packet_transfer:
  assumes pt: "IS_PACKET_TRANSFER (inputState s)"
  shows
    "jsiCtrlC cfg s = s \<and>
     (\<not> jsiPasswordProtected cfg s \<longrightarrow>
        jsiHandleConsoleChar cfg 3 s =
          jsiHandleConsoleChar cfg 3 (s\<lparr>execute := execute s AND NOT (EXEC_CTRL_C_MASK cfg)\<rparr>) \<and>
        (inputState s = IPS_PACKET_TRANSFER_BYTE0 \<or>
         inputState s = IPS_PACKET_TRANSFER_BYTE1 \<or>
         inputState s = IPS_PACKET_TRANSFER_DATA \<and>
           inputLineLength (jsiAppendToInputLine 3 s) < uint (inputPacketLength s AND PT_SIZE_MASK)
         \<longrightarrow>
           (\<exists>s'. jsiHandleConsoleChar cfg 3 s = Some s' \<and>
                 execute s' AND EXEC_CTRL_C_MASK cfg = 0 \<and>
                 IS_PACKET_TRANSFER (inputState s'))) \<and>
        (ch \<noteq> 3 \<and>
         (inputState s = IPS_PACKET_TRANSFER_BYTE0 \<or>
          inputState s = IPS_PACKET_TRANSFER_BYTE1 \<and>
            (inputPacketLength s OR ucast ch) AND PT_SIZE_MASK \<noteq> 0 \<or>
          inputState s = IPS_PACKET_TRANSFER_DATA \<and>
            inputLineLength (jsiAppendToInputLine ch s) < uint (inputPacketLength s AND PT_SIZE_MASK))
         \<longrightarrow>
           (\<exists>s'. jsiHandleConsoleChar cfg ch s = Some s' \<and>
                 execute s' = execute s \<and>
                 IS_PACKET_TRANSFER (inputState s'))))"
proof (intro conjI impI)
  show "jsiCtrlC cfg s = s" using pt by (simp add: jsiCtrlC_def)
next
  assume np: "\<not> jsiPasswordProtected cfg s"
  show "jsiHandleConsoleChar cfg 3 s =
          jsiHandleConsoleChar cfg 3 (s\<lparr>execute := execute s AND NOT (EXEC_CTRL_C_MASK cfg)\<rparr>)"
    using pt np
    by (simp add: jsiHandleConsoleChar_def jsiPasswordProtected_def and_not_idem)
next
  assume np: "\<not> jsiPasswordProtected cfg s"
  assume c: "inputState s = IPS_PACKET_TRANSFER_BYTE0 \<or>
         inputState s = IPS_PACKET_TRANSFER_BYTE1 \<or>
         inputState s = IPS_PACKET_TRANSFER_DATA \<and>
           inputLineLength (jsiAppendToInputLine 3 s) < uint (inputPacketLength s AND PT_SIZE_MASK)"
  show "\<exists>s'. jsiHandleConsoleChar cfg 3 s = Some s' \<and>
                 execute s' AND EXEC_CTRL_C_MASK cfg = 0 \<and>
                 IS_PACKET_TRANSFER (inputState s')"
    using np c
    by (auto simp: jsiHandleConsoleChar_def IS_PACKET_TRANSFER_iff and_not_and_self Let_def
        byte1_ctrl_c_len jsiAppendToInputLine_def)
next
  assume np: "\<not> jsiPasswordProtected cfg s"
  assume c: "ch \<noteq> 3 \<and>
         (inputState s = IPS_PACKET_TRANSFER_BYTE0 \<or>
          inputState s = IPS_PACKET_TRANSFER_BYTE1 \<and>
            (inputPacketLength s OR ucast ch) AND PT_SIZE_MASK \<noteq> 0 \<or>
          inputState s = IPS_PACKET_TRANSFER_DATA \<and>
            inputLineLength (jsiAppendToInputLine ch s) < uint (inputPacketLength s AND PT_SIZE_MASK))"
  show "\<exists>s'. jsiHandleConsoleChar cfg ch s = Some s' \<and>
                 execute s' = execute s \<and>
                 IS_PACKET_TRANSFER (inputState s')"
    by (rule other_byte_keeps_ctrl_c [OF np]) (use c in blast)+
qed

theorem ctrl_c_ignored_in_packet_transfer_witness:
  "jsiCtrlC board ((initial board)\<lparr>inputState := IPS_PACKET_TRANSFER_BYTE0, execute := 0x10\<rparr>) =
     (initial board)\<lparr>inputState := IPS_PACKET_TRANSFER_BYTE0, execute := 0x10\<rparr> \<and>
   jsiHandleConsoleChar board 3
      ((initial board)\<lparr>inputState := IPS_PACKET_TRANSFER_BYTE0, execute := 0x10\<rparr>) =
     jsiHandleConsoleChar board 3
      ((initial board)\<lparr>inputState := IPS_PACKET_TRANSFER_BYTE0, execute := 0\<rparr>) \<and>
   (\<exists>s'. jsiHandleConsoleChar board 3
           ((initial board)\<lparr>inputState := IPS_PACKET_TRANSFER_BYTE0, execute := 0x10\<rparr>) = Some s' \<and>
         execute s' AND EXEC_CTRL_C_MASK board = 0 \<and>
         IS_PACKET_TRANSFER (inputState s')) \<and>
   (\<exists>s'. jsiHandleConsoleChar board 0x41
           ((initial board)\<lparr>inputState := IPS_PACKET_TRANSFER_BYTE0, execute := 0x10\<rparr>) = Some s' \<and>
         execute s' = 0x10 \<and>
         IS_PACKET_TRANSFER (inputState s'))"
proof -
  let ?s = "(initial board)\<lparr>inputState := IPS_PACKET_TRANSFER_BYTE0, execute := 0x10\<rparr>"
  have pt: "IS_PACKET_TRANSFER (inputState ?s)" by (simp add: IS_PACKET_TRANSFER_iff)
  have np: "\<not> jsiPasswordProtected board ?s"
    by (simp add: jsiPasswordProtected_def initial_def)
  have st: "inputState ?s = IPS_PACKET_TRANSFER_BYTE0" by simp
  have ne: "(0x41 :: 8 word) \<noteq> 3" by simp
  have ex: "execute ?s = 0x10" by simp
  have c: "?s\<lparr>execute := execute ?s AND NOT (EXEC_CTRL_C_MASK board)\<rparr> =
           (initial board)\<lparr>inputState := IPS_PACKET_TRANSFER_BYTE0, execute := 0\<rparr>"
    by (simp add: board_def board0_def)
  note th = ctrl_c_ignored_in_packet_transfer [OF pt, where cfg = board and ch = "0x41"]
  have a1: "jsiCtrlC board ?s = ?s" using th by blast
  have a2: "jsiHandleConsoleChar board 3 ?s =
            jsiHandleConsoleChar board 3
              ((initial board)\<lparr>inputState := IPS_PACKET_TRANSFER_BYTE0, execute := 0\<rparr>)"
    using th np unfolding c by blast
  have a3: "\<exists>s'. jsiHandleConsoleChar board 3 ?s = Some s' \<and>
                 execute s' AND EXEC_CTRL_C_MASK board = 0 \<and>
                 IS_PACKET_TRANSFER (inputState s')"
    using th np st by blast
  have "\<exists>s'. jsiHandleConsoleChar board 0x41 ?s = Some s' \<and>
                 execute s' = execute ?s \<and>
                 IS_PACKET_TRANSFER (inputState s')"
    using th np st ne by blast
  then have a4: "\<exists>s'. jsiHandleConsoleChar board 0x41 ?s = Some s' \<and>
                 execute s' = 0x10 \<and>
                 IS_PACKET_TRANSFER (inputState s')"
    unfolding ex .
  show ?thesis using a1 a2 a3 a4 by (intro conjI)
qed

section \<open>The packet timeout\<close>

text \<open>
  Claim C9, at the input where the code departs from it: jsiPacketStart arms the packet
  timer with 5000 milliseconds, so a scheduler pass one second after the start of the
  packet takes 1000 off it and does not run its handler: the machine still awaits the
  first length byte and nothing has been queued for transmission.
\<close>

theorem packet_timeout_not_after_1s:
  "PK_TIMEOUT (jsiPacketStart (initial board)) =
     Some \<lparr>cb = PacketTimeoutHandler, timeRemaining = 5000\<rparr> \<and>
   jsiIdleTimers board 1000 (jsiPacketStart (initial board)) =
     Some ((jsiPacketStart (initial board))
             \<lparr>PK_TIMEOUT := Some \<lparr>cb = PacketTimeoutHandler, timeRemaining = 4000\<rparr>\<rparr>) \<and>
   inputState (jsiPacketStart (initial board)) = IPS_PACKET_TRANSFER_BYTE0 \<and>
   txHead (jsiPacketStart (initial board)) = txTail (jsiPacketStart (initial board))"
  by (simp add: jsiPacketStart_def jsiIdleTimers_def jsiSetTimeout_def Let_def
      jsiInputLineCursorMoved_def initial_def)


section \<open>The packet protocol\<close>

lemma size_bits: "(w :: 16 word) AND PT_SIZE_MASK = take_bit 13 w"
  by (simp add: PT_SIZE_MASK_def take_bit_eq_mask mask_eq_exp_minus_1)

lemma type_mask_eq: "PT_TYPE_MASK = NOT (mask 13)"
  by (simp add: PT_TYPE_MASK_def flip: minus_exp_eq_not_mask)

lemma type_bits: "(w :: 16 word) AND PT_TYPE_MASK = push_bit 13 (drop_bit 13 w)"
  unfolding type_mask_eq by (rule bit_word_eqI) (auto simp: bit_simps)

lemma drop_push_13: "drop_bit 13 (push_bit 13 (x :: 16 word)) = take_bit 3 x"
  by (rule bit_word_eqI) (auto simp: bit_simps)

lemma take_3_drop_13: "take_bit 3 (drop_bit 13 (w :: 16 word)) = drop_bit 13 w"
  by (rule bit_word_eqI) (auto simp: bit_simps dest: bit_imp_le_length)

lemma type_eq_iff:
  assumes "take_bit 3 c = (c :: 16 word)"
  shows "(w AND PT_TYPE_MASK = push_bit 13 c) \<longleftrightarrow> drop_bit 13 w = c"
proof
  assume "w AND PT_TYPE_MASK = push_bit 13 c"
  then have "drop_bit 13 (push_bit 13 (drop_bit 13 w)) = drop_bit 13 (push_bit 13 c)"
    by (simp add: type_bits)
  then show "drop_bit 13 w = c"
    by (simp add: drop_push_13 take_3_drop_13 assms)
next
  assume "drop_bit 13 w = c"
  then show "w AND PT_TYPE_MASK = push_bit 13 c" by (simp add: type_bits)
qed

lemma packet_type_numbers:
  fixes w :: "16 word"
  shows "(w AND PT_TYPE_MASK = PT_TYPE_RESPONSE) \<longleftrightarrow> drop_bit 13 w = 0"
    and "(w AND PT_TYPE_MASK = PT_TYPE_EVAL) \<longleftrightarrow> drop_bit 13 w = 1"
    and "(w AND PT_TYPE_MASK = PT_TYPE_EVENT) \<longleftrightarrow> drop_bit 13 w = 2"
    and "(w AND PT_TYPE_MASK = PT_TYPE_FILE_SEND) \<longleftrightarrow> drop_bit 13 w = 3"
    and "(w AND PT_TYPE_MASK = PT_TYPE_DATA) \<longleftrightarrow> drop_bit 13 w = 4"
    and "(w AND PT_TYPE_MASK = PT_TYPE_FILE_RECV) \<longleftrightarrow> drop_bit 13 w = 5"
  using type_eq_iff [of 0 w] type_eq_iff [of 1 w] type_eq_iff [of 2 w]
    type_eq_iff [of 3 w] type_eq_iff [of 4 w] type_eq_iff [of 5 w]
  by (simp_all add: PT_TYPE_RESPONSE_def PT_TYPE_EVAL_def PT_TYPE_EVENT_def
      PT_TYPE_FILE_SEND_def PT_TYPE_DATA_def PT_TYPE_FILE_RECV_def)


lemma jsiHandleConsoleChars_append:
  "jsiHandleConsoleChars cfg (a @ b) s =
     (case jsiHandleConsoleChars cfg a s of
        None \<Rightarrow> None
      | Some s1 \<Rightarrow> jsiHandleConsoleChars cfg b s1)"
  by (induction a arbitrary: s) (auto split: option.splits)

lemma not_protected_and_not:
  "x AND p = 0 \<Longrightarrow> (x AND NOT e) AND p = (0 :: 32 word)"
  by (auto simp: bit_eq_iff bit_simps)

lemma packetState_not_protected:
  "\<not> jsiPasswordProtected cfg s0 \<Longrightarrow> \<not> jsiPasswordProtected cfg (packetState cfg s0 st w c q)"
  by (simp add: jsiPasswordProtected_def packetState_def jsiPacketStart_def Let_def
      jsiInputLineCursorMoved_def not_protected_and_not)

lemma packetState_sel:
  "inputState (packetState cfg s0 st w c q) = st"
  "inputPacketLength (packetState cfg s0 st w c q) = w"
  "inputLine (packetState cfg s0 st w c q) = q"
  "inputLineLength (packetState cfg s0 st w c (q @ [ch])) = int (length q) + 1"
  by (simp_all add: packetState_def)

lemma packetState_upd:
  "(packetState cfg s0 st w c q)\<lparr>inputPacketLength := w'\<rparr> = packetState cfg s0 st w' c q"
  "(packetState cfg s0 st w c q)\<lparr>inputState := st'\<rparr> = packetState cfg s0 st' w c q"
  "(packetState cfg s0 st w c q)
      \<lparr>execute := execute (packetState cfg s0 st w c q) AND NOT (EXEC_CTRL_C_MASK cfg)\<rparr> =
     packetState cfg s0 st w True q"
  "(packetState cfg s0 st w c [])
      \<lparr>jsiStatus := jsiStatus (packetState cfg s0 st w c []) AND NOT (JSIS_ECHO_OFF_FOR_LINE cfg)\<rparr> =
     packetState cfg s0 st w c []"
  "jsiAppendToInputLine ch (packetState cfg s0 st w c q) = packetState cfg s0 st w c (q @ [ch])"
  by (simp_all add: packetState_def and_not_idem jsiAppendToInputLine_def Let_def)

lemma jsiPacketStart_sel:
  "inputState (jsiPacketStart s0) = IPS_PACKET_TRANSFER_BYTE0"
  "inputLine (jsiPacketStart s0) = []"
  "jsiStatus (jsiPacketStart s0) = jsiStatus s0"
  "execute (jsiPacketStart s0) = execute s0"
  by (simp_all add: jsiPacketStart_def Let_def jsiInputLineCursorMoved_def)

lemma jsiPacketStart_not_protected:
  "jsiPasswordProtected cfg (jsiPacketStart s0) = jsiPasswordProtected cfg s0"
  by (simp add: jsiPasswordProtected_def jsiPacketStart_sel)

lemma packetState_start:
  "(jsiPacketStart s0)
     \<lparr>jsiStatus := jsiStatus s0 AND NOT (JSIS_ECHO_OFF_FOR_LINE cfg),
      inputPacketLength := w, inputState := st\<rparr> = packetState cfg s0 st w False []"
  "(jsiPacketStart s0)
     \<lparr>execute := execute s0 AND NOT (EXEC_CTRL_C_MASK cfg),
      jsiStatus := jsiStatus s0 AND NOT (JSIS_ECHO_OFF_FOR_LINE cfg),
      inputPacketLength := w, inputState := st\<rparr> = packetState cfg s0 st w True []"
  by (simp_all add: packetState_def jsiPacketStart_def Let_def jsiInputLineCursorMoved_def)

lemma packet_byte0:
  assumes "\<not> jsiPasswordProtected cfg s0"
  shows "jsiHandleConsoleChar cfg hi (jsiPacketStart s0) =
           Some (packetState cfg s0 IPS_PACKET_TRANSFER_BYTE1 (push_bit 8 (ucast hi)) (hi = 3) [])"
proof (cases "hi = 3")
  case True
  then show ?thesis
    using assms
    by (simp add: jsiHandleConsoleChar_def jsiPacketStart_not_protected jsiPacketStart_sel
        IS_PACKET_TRANSFER_iff packetState_start)
next
  case False
  then show ?thesis
    using assms
    by (simp add: jsiHandleConsoleChar_def jsiPacketStart_not_protected jsiPacketStart_sel
        IS_PACKET_TRANSFER_iff packetState_start)
qed

lemma packet_byte1:
  assumes "\<not> jsiPasswordProtected cfg s0"
  shows "jsiHandleConsoleChar cfg lo
           (packetState cfg s0 IPS_PACKET_TRANSFER_BYTE1 (push_bit 8 (ucast hi)) c []) =
         (if take_bit 13 (packetHeader hi lo) = 0
          then jsiPacketProcess cfg
                 (packetState cfg s0 IPS_PACKET_TRANSFER_BYTE1 (packetHeader hi lo) (c \<or> lo = 3) [])
          else Some (packetState cfg s0 IPS_PACKET_TRANSFER_DATA (packetHeader hi lo) (c \<or> lo = 3) []))"
proof (cases "lo = 3")
  case True
  then show ?thesis
    using packetState_not_protected [OF assms, of IPS_PACKET_TRANSFER_BYTE1 "push_bit 8 (ucast hi)" c "[]"]
    by (simp add: jsiHandleConsoleChar_def Let_def IS_PACKET_TRANSFER_iff packetState_sel
        packetState_upd size_bits packetHeader_def)
next
  case False
  then show ?thesis
    using packetState_not_protected [OF assms, of IPS_PACKET_TRANSFER_BYTE1 "push_bit 8 (ucast hi)" c "[]"]
    by (simp add: jsiHandleConsoleChar_def Let_def IS_PACKET_TRANSFER_iff packetState_sel
        packetState_upd size_bits packetHeader_def)
qed

lemma packet_data:
  assumes "\<not> jsiPasswordProtected cfg s0"
  shows "jsiHandleConsoleChar cfg ch (packetState cfg s0 IPS_PACKET_TRANSFER_DATA w c q) =
         (if unat (take_bit 13 w) \<le> length q + 1
          then jsiPacketProcess cfg
                 (packetState cfg s0 IPS_PACKET_TRANSFER_DATA w (c \<or> ch = 3) (q @ [ch]))
          else Some (packetState cfg s0 IPS_PACKET_TRANSFER_DATA w (c \<or> ch = 3) (q @ [ch])))"
proof -
  have le: "(uint (take_bit 13 w) \<le> int (length q) + 1) \<longleftrightarrow> unat (take_bit 13 w) \<le> length q + 1"
    unfolding uint_nat by linarith
  have np: "\<not> jsiPasswordProtected cfg (packetState cfg s0 IPS_PACKET_TRANSFER_DATA w c q)"
    by (rule packetState_not_protected [OF assms])
  have "jsiHandleConsoleChar cfg ch (packetState cfg s0 IPS_PACKET_TRANSFER_DATA w c q) =
        (if uint (take_bit 13 w) \<le> int (length q) + 1
          then jsiPacketProcess cfg
                 (packetState cfg s0 IPS_PACKET_TRANSFER_DATA w (c \<or> ch = 3) (q @ [ch]))
          else Some (packetState cfg s0 IPS_PACKET_TRANSFER_DATA w (c \<or> ch = 3) (q @ [ch])))"
  proof (cases "ch = 3")
    case True
    then show ?thesis
      using np
      by (simp add: jsiHandleConsoleChar_def Let_def IS_PACKET_TRANSFER_iff packetState_sel
          packetState_upd size_bits)
  next
    case False
    then show ?thesis
      using np
      by (simp add: jsiHandleConsoleChar_def Let_def IS_PACKET_TRANSFER_iff packetState_sel
          packetState_upd size_bits)
  qed
  then show ?thesis unfolding le .
qed

lemma packet_payload_accumulates:
  assumes np: "\<not> jsiPasswordProtected cfg s0"
    and "length q < unat (take_bit 13 w)"
  shows "jsiHandleConsoleChars cfg q (packetState cfg s0 IPS_PACKET_TRANSFER_DATA w c []) =
           Some (packetState cfg s0 IPS_PACKET_TRANSFER_DATA w (c \<or> 3 \<in> set q) q)"
  using assms(2)
proof (induction q rule: rev_induct)
  case Nil
  then show ?case by simp
next
  case (snoc ch q)
  then show ?case
    by (simp add: jsiHandleConsoleChars_append packet_data [OF np] disj_ac)
qed

lemma packet_payload_complete:
  assumes np: "\<not> jsiPasswordProtected cfg s0"
    and "q \<noteq> []" and "length q = unat (take_bit 13 w)"
  shows "jsiHandleConsoleChars cfg q (packetState cfg s0 IPS_PACKET_TRANSFER_DATA w c []) =
           jsiPacketProcess cfg (packetState cfg s0 IPS_PACKET_TRANSFER_DATA w (c \<or> 3 \<in> set q) q)"
proof -
  from assms(2) obtain q' ch where q: "q = q' @ [ch]" by (cases q rule: rev_cases) auto
  have lt: "length q' < unat (take_bit 13 w)" using assms(3) q by simp
  have le: "unat (take_bit 13 w) \<le> length q' + 1" using assms(3) q by simp
  show ?thesis
    unfolding q
    by (simp add: jsiHandleConsoleChars_append packet_payload_accumulates [OF np lt]
        packet_data [OF np] le disj_ac del: One_nat_def split: option.split)
qed


lemma jsiPacketProcess_by_type:
  "jsiPacketProcess cfg x =
     (case
        (if drop_bit 13 (inputPacketLength x) = 1
         then jsiPacketEval cfg (x\<lparr>inputPacketLength := take_bit 13 (inputPacketLength x)\<rparr>)
         else if drop_bit 13 (inputPacketLength x) = 2
         then jsiPacketEvent cfg (x\<lparr>inputPacketLength := take_bit 13 (inputPacketLength x)\<rparr>)
         else if drop_bit 13 (inputPacketLength x) = 5
         then jsiPacketFileRecv cfg (x\<lparr>inputPacketLength := take_bit 13 (inputPacketLength x)\<rparr>)
         else if drop_bit 13 (inputPacketLength x) = 3
         then jsiPacketFileSend cfg (x\<lparr>inputPacketLength := take_bit 13 (inputPacketLength x)\<rparr>)
         else if drop_bit 13 (inputPacketLength x) = 4
         then jsiPacketData cfg (x\<lparr>inputPacketLength := take_bit 13 (inputPacketLength x)\<rparr>)
         else jsiConsolePrintChar cfg ASCII_NAK
                (x\<lparr>inputPacketLength := take_bit 13 (inputPacketLength x)\<rparr>)) of
        None \<Rightarrow> None
      | Some y \<Rightarrow> Some (jsiPacketExit y))"
  by (simp add: jsiPacketProcess_def Let_def packet_type_numbers size_bits)

lemma jsiPacketExit_idle:
  "inputState (jsiPacketExit y) = IPS_NONE"
  "inputLine (jsiPacketExit y) = (case PK_IL y of None \<Rightarrow> [] | Some l \<Rightarrow> l)"
  by (simp_all add: jsiPacketExit_def Let_def jsiInputLineCursorMoved_def)

lemma jsiPacketStart_checkpoint: "PK_IL (jsiPacketStart s0) = Some (inputLine s0)"
  by (simp add: jsiPacketStart_def Let_def jsiInputLineCursorMoved_def)

text \<open>
  Claim C8. After DLE SOH (jsiPacketStart) the next two bytes are accumulated as the
  16-bit big-endian value \<open>packetHeader hi lo\<close>, whose low 13 bits are the payload
  length and whose top 3 bits select the packet type. When the length is 0 the packet is
  processed as soon as the second byte is handled. Otherwise the payload bytes
  accumulate in the input line and nothing is processed while fewer bytes than the
  declared length have arrived; the byte that completes the declared length makes
  jsiPacketProcess run on the accumulated payload. jsiPacketProcess runs the body for
  type 1 (Eval), 2 (Event), 3 (FileSend), 4 (Data) or 5 (FileRecv), answers NAK to every
  other type (type 0, Response, included), and ends with jsiPacketExit, which puts the
  state machine back in IPS_NONE and makes the checkpointed line (the entry PK_IL, when
  the body left it alone) the input line again.
\<close>

theorem packet_transfer_decoding:
  assumes np: "\<not> jsiPasswordProtected cfg s0"
  shows
    "(take_bit 13 (packetHeader hi lo) = 0 \<longrightarrow>
        jsiHandleConsoleChars cfg [hi, lo] (jsiPacketStart s0) =
          jsiPacketProcess cfg
            (packetState cfg s0 IPS_PACKET_TRANSFER_BYTE1 (packetHeader hi lo)
               (3 \<in> set [hi, lo]) [])) \<and>
     (length q < unat (take_bit 13 (packetHeader hi lo)) \<longrightarrow>
        jsiHandleConsoleChars cfg (hi # lo # q) (jsiPacketStart s0) =
          Some (packetState cfg s0 IPS_PACKET_TRANSFER_DATA (packetHeader hi lo)
                  (3 \<in> set (hi # lo # q)) q)) \<and>
     (q \<noteq> [] \<and> length q = unat (take_bit 13 (packetHeader hi lo)) \<longrightarrow>
        jsiHandleConsoleChars cfg (hi # lo # q) (jsiPacketStart s0) =
          jsiPacketProcess cfg
            (packetState cfg s0 IPS_PACKET_TRANSFER_DATA (packetHeader hi lo)
               (3 \<in> set (hi # lo # q)) q)) \<and>
     jsiPacketProcess cfg x =
       (case
          (if drop_bit 13 (inputPacketLength x) = 1
           then jsiPacketEval cfg (x\<lparr>inputPacketLength := take_bit 13 (inputPacketLength x)\<rparr>)
           else if drop_bit 13 (inputPacketLength x) = 2
           then jsiPacketEvent cfg (x\<lparr>inputPacketLength := take_bit 13 (inputPacketLength x)\<rparr>)
           else if drop_bit 13 (inputPacketLength x) = 5
           then jsiPacketFileRecv cfg (x\<lparr>inputPacketLength := take_bit 13 (inputPacketLength x)\<rparr>)
           else if drop_bit 13 (inputPacketLength x) = 3
           then jsiPacketFileSend cfg (x\<lparr>inputPacketLength := take_bit 13 (inputPacketLength x)\<rparr>)
           else if drop_bit 13 (inputPacketLength x) = 4
           then jsiPacketData cfg (x\<lparr>inputPacketLength := take_bit 13 (inputPacketLength x)\<rparr>)
           else jsiConsolePrintChar cfg ASCII_NAK
                  (x\<lparr>inputPacketLength := take_bit 13 (inputPacketLength x)\<rparr>)) of
          None \<Rightarrow> None
        | Some y \<Rightarrow> Some (jsiPacketExit y)) \<and>
     inputState (jsiPacketExit y) = IPS_NONE \<and>
     (PK_IL y = PK_IL (jsiPacketStart s0) \<longrightarrow> inputLine (jsiPacketExit y) = inputLine s0)"
proof (intro conjI impI)
  assume "take_bit 13 (packetHeader hi lo) = 0"
  then show "jsiHandleConsoleChars cfg [hi, lo] (jsiPacketStart s0) =
          jsiPacketProcess cfg
            (packetState cfg s0 IPS_PACKET_TRANSFER_BYTE1 (packetHeader hi lo)
               (3 \<in> set [hi, lo]) [])"
    by (simp add: packet_byte0 [OF np] packet_byte1 [OF np] eq_commute [of 3] split: option.split)
next
  assume len: "length q < unat (take_bit 13 (packetHeader hi lo))"
  then have nz: "take_bit 13 (packetHeader hi lo) \<noteq> 0" by auto
  show "jsiHandleConsoleChars cfg (hi # lo # q) (jsiPacketStart s0) =
          Some (packetState cfg s0 IPS_PACKET_TRANSFER_DATA (packetHeader hi lo)
                  (3 \<in> set (hi # lo # q)) q)"
    using nz
    by (simp add: packet_byte0 [OF np] packet_byte1 [OF np] packet_payload_accumulates [OF np len]
        eq_commute [of 3] disj_ac)
next
  assume "q \<noteq> [] \<and> length q = unat (take_bit 13 (packetHeader hi lo))"
  then have ne: "q \<noteq> []" and len: "length q = unat (take_bit 13 (packetHeader hi lo))" by simp_all
  then have nz: "take_bit 13 (packetHeader hi lo) \<noteq> 0" by auto
  show "jsiHandleConsoleChars cfg (hi # lo # q) (jsiPacketStart s0) =
          jsiPacketProcess cfg
            (packetState cfg s0 IPS_PACKET_TRANSFER_DATA (packetHeader hi lo)
               (3 \<in> set (hi # lo # q)) q)"
    using nz
    by (simp add: packet_byte0 [OF np] packet_byte1 [OF np] packet_payload_complete [OF np ne len]
        eq_commute [of 3] disj_ac)
next
  assume "PK_IL y = PK_IL (jsiPacketStart s0)"
  then show "inputLine (jsiPacketExit y) = inputLine s0"
    by (simp add: jsiPacketExit_idle jsiPacketStart_checkpoint)
qed (rule jsiPacketProcess_by_type jsiPacketExit_idle)+


theorem packet_transfer_decoding_witness:
  "jsiHandleConsoleChars board [0x20, 0] (jsiPacketStart ((initial board)\<lparr>inputLine := [0x61]\<rparr>)) =
     jsiPacketProcess board
       (packetState board ((initial board)\<lparr>inputLine := [0x61]\<rparr>)
          IPS_PACKET_TRANSFER_BYTE1 0x2000 False []) \<and>
   jsiHandleConsoleChars board [0x20, 2, 0x31] (jsiPacketStart ((initial board)\<lparr>inputLine := [0x61]\<rparr>)) =
     Some (packetState board ((initial board)\<lparr>inputLine := [0x61]\<rparr>)
             IPS_PACKET_TRANSFER_DATA 0x2002 False [0x31]) \<and>
   jsiHandleConsoleChars board [0x20, 2, 0x31, 0x32] (jsiPacketStart ((initial board)\<lparr>inputLine := [0x61]\<rparr>)) =
     jsiPacketProcess board
       (packetState board ((initial board)\<lparr>inputLine := [0x61]\<rparr>)
          IPS_PACKET_TRANSFER_DATA 0x2002 False [0x31, 0x32]) \<and>
   inputLine (jsiPacketExit
       (packetState board ((initial board)\<lparr>inputLine := [0x61]\<rparr>)
          IPS_PACKET_TRANSFER_DATA 2 False [0x31, 0x32])) = [0x61]"
proof -
  let ?s0 = "(initial board)\<lparr>inputLine := [0x61]\<rparr>"
  have np: "\<not> jsiPasswordProtected board ?s0"
    by (simp add: jsiPasswordProtected_def initial_def)
  have h0: "packetHeader 0x20 0 = 0x2000" and h2: "packetHeader 0x20 2 = 0x2002"
    by (simp_all add: packetHeader_def)
  have l0: "take_bit 13 (0x2000 :: 16 word) = 0" and l2: "unat (take_bit 13 (0x2002 :: 16 word)) = 2"
    by simp_all
  have pk: "PK_IL (packetState board ?s0 IPS_PACKET_TRANSFER_DATA 2 False [0x31, 0x32]) =
            PK_IL (jsiPacketStart ?s0)"
    by (simp add: packetState_def)
  show ?thesis
    using packet_transfer_decoding [OF np, where hi = "0x20" and lo = 0]
      packet_transfer_decoding [OF np, where hi = "0x20" and lo = 2 and q = "[0x31]"]
      packet_transfer_decoding [OF np, where hi = "0x20" and lo = 2 and q = "[0x31, 0x32]"]
      packet_transfer_decoding [OF np, where
        y = "packetState board ?s0 IPS_PACKET_TRANSFER_DATA 2 False [0x31, 0x32]"]
    unfolding h0 h2 l0 l2 using pk
    by simp
qed

section \<open>The event buffer: pushing and popping\<close>

lemma and_mask_mod:
  assumes "msk = 2 ^ k - 1"
  shows "(x :: nat) AND msk = x mod (msk + 1)"
proof -
  have "msk + 1 = 2 ^ k" using assms by simp
  moreover have "x AND msk = take_bit k x"
    using assms by (simp add: take_bit_eq_mask mask_eq_exp_minus_1)
  ultimately show ?thesis by (simp add: take_bit_eq_mod)
qed

lemma mod_add_inj:
  fixes a i j N :: nat
  assumes "i < N" "j < N" "(a + i) mod N = (a + j) mod N"
  shows "i = j"
proof -
  have aux: "i' = j'" if "i' \<le> j'" "j' < N" "(a + i') mod N = (a + j') mod N" for i' j'
  proof -
    have "N dvd (a + j') - (a + i')"
      using that by (metis add_le_cancel_left mod_eq_dvd_iff_nat)
    then have "N dvd j' - i'" by simp
    moreover have "j' - i' < N" using that by simp
    ultimately have "j' - i' = 0" by (meson dvd_imp_le not_less zero_less_iff_neq_zero)
    then show ?thesis using that by simp
  qed
  show ?thesis
  proof (cases "i \<le> j")
    case True
    then show ?thesis using aux [of i j] assms by simp
  next
    case False
    then show ?thesis using aux [of j i] assms by simp
  qed
qed

lemma length_ring [simp]: "length (ring buf start n) = n"
  by (simp add: ring_def)

lemma ring_0 [simp]: "ring buf start 0 = []"
  by (simp add: ring_def)

lemma ring_Suc: "ring buf start (Suc n) = ring buf start n @ [buf ! ((start + n) mod length buf)]"
  by (simp add: ring_def)

lemma ring_add: "ring buf start (m + n) = ring buf start m @ ring buf (start + m) n"
proof (induction n)
  case 0
  then show ?case by simp
next
  case (Suc n)
  have "ring buf start (m + Suc n) = ring buf start (Suc (m + n))" by simp
  also have "\<dots> = ring buf start (m + n) @ [buf ! ((start + (m + n)) mod length buf)]"
    by (rule ring_Suc)
  finally show ?case by (simp add: Suc ring_Suc add.assoc)
qed

lemma ring_mod: "ring buf (start mod length buf) n = ring buf start n"
  by (simp add: ring_def mod_add_left_eq)

lemma ring_nth: "j < n \<Longrightarrow> ring buf start n ! j = buf ! ((start + j) mod length buf)"
  by (simp add: ring_def)

lemma ring_update_outside:
  assumes "n \<le> j" "j < length buf"
  shows "ring (buf[(start + j) mod length buf := v]) start n = ring buf start n"
proof -
  have "(start + j) mod length buf \<noteq> (start + i) mod length buf" if "i < n" for i
    using mod_add_inj [of i "length buf" j start] that assms by auto
  then show ?thesis by (auto simp: ring_def)
qed

lemma length_ringWrite [simp]: "length (ringWrite buf h xs) = length buf"
  by (induction xs arbitrary: buf h) simp_all

lemma ringWrite_append:
  "ringWrite buf h (xs @ ys) = ringWrite (ringWrite buf h xs) (h + length xs) ys"
  by (induction xs arbitrary: buf h) simp_all

lemma ringWrite_snoc:
  "ringWrite buf h (xs @ [x]) = (ringWrite buf h xs)[(h + length xs) mod length buf := x]"
  by (simp add: ringWrite_append)

lemma ringWrite_mod: "ringWrite buf (h mod length buf) xs = ringWrite buf h xs"
proof (induction xs arbitrary: buf h)
  case Nil
  then show ?case by simp
next
  case (Cons x xs)
  have "ringWrite (buf[h mod length buf := x]) (h mod length buf + 1) xs =
        ringWrite (buf[h mod length buf := x]) ((h mod length buf + 1) mod length (buf[h mod length buf := x])) xs"
    by (simp only: Cons.IH)
  also have "(h mod length buf + 1) mod length (buf[h mod length buf := x]) = (h + 1) mod length (buf[h mod length buf := x])"
    by (simp add: mod_Suc_eq)
  also have "ringWrite (buf[h mod length buf := x]) ((h + 1) mod length (buf[h mod length buf := x])) xs =
             ringWrite (buf[h mod length buf := x]) (h + 1) xs"
    by (simp only: Cons.IH)
  finally show ?case by simp
qed

lemma ring_ringWrite:
  assumes "0 < length buf" "u + length xs \<le> length buf"
  shows "ring (ringWrite buf (t + u) xs) t (u + length xs) = ring buf t u @ xs"
  using assms(2)
proof (induction xs rule: rev_induct)
  case Nil
  then show ?case by simp
next
  case (snoc x xs)
  let ?W = "ringWrite buf (t + u) xs"
  have len: "u + length xs < length buf" using snoc.prems by simp
  have IH: "ring ?W t (u + length xs) = ring buf t u @ xs" using snoc by simp
  have "ring (ringWrite buf (t + u) (xs @ [x])) t (u + length (xs @ [x])) =
        ring (?W[(t + (u + length xs)) mod length ?W := x]) t (Suc (u + length xs))"
    by (simp add: ringWrite_snoc add.assoc)
  also have "\<dots> = ring (?W[(t + (u + length xs)) mod length ?W := x]) t (u + length xs) @ [x]"
    using assms(1) by (simp add: ring_Suc)
  also have "ring (?W[(t + (u + length xs)) mod length ?W := x]) t (u + length xs) =
             ring ?W t (u + length xs)"
    by (rule ring_update_outside) (use len in simp_all)
  finally show ?case using IH by simp
qed


lemma ioCopyIn_Suc:
  "ioCopyIn msk d (Suc n) (buf, idx) =
     (case ioCopyIn msk d n (buf, idx) of (b, i) \<Rightarrow> (b[i := d ! n], (i + 1) AND msk))"
  by (simp add: ioCopyIn_def)

lemma ioCopyIn_eq:
  assumes msk: "msk = 2 ^ k - 1" and len: "length buf = msk + 1" and idx: "idx < msk + 1"
    and d: "len \<le> length d"
  shows "ioCopyIn msk d len (buf, idx) =
           (ringWrite buf idx (take len d), (idx + len) mod (msk + 1))"
  using d
proof (induction len)
  case 0
  then show ?case using idx by (simp add: ioCopyIn_def)
next
  case (Suc n)
  then have n: "n < length d" by simp
  have IH: "ioCopyIn msk d n (buf, idx) = (ringWrite buf idx (take n d), (idx + n) mod (msk + 1))"
    using Suc by simp
  have t: "take (Suc n) d = take n d @ [d ! n]" using n by (simp add: take_Suc_conv_app_nth)
  have ln: "length (take n d) = n" using n by simp
  have m: "min (length d) n = n" using n by simp
  show ?case
    unfolding ioCopyIn_Suc IH t
    by (simp add: ringWrite_snoc m len and_mask_mod [OF msk] mod_Suc_eq)
qed

lemma ioCopyOut_Suc:
  "ioCopyOut msk buf (Suc n) idx =
     (case ioCopyOut msk buf n idx of (out, i) \<Rightarrow> (out @ [buf ! i], (i + 1) AND msk))"
  by (simp add: ioCopyOut_def)

lemma ioCopyOut_eq:
  assumes msk: "msk = 2 ^ k - 1" and len: "length buf = msk + 1" and idx: "idx < msk + 1"
  shows "ioCopyOut msk buf len idx = (ring buf idx len, (idx + len) mod (msk + 1))"
proof (induction len)
  case 0
  then show ?case using idx by (simp add: ioCopyOut_def)
next
  case (Suc n)
  show ?case
    unfolding ioCopyOut_Suc Suc
    by (simp add: ring_Suc len and_mask_mod [OF msk] mod_Suc_eq)
qed

lemma used_mod:
  fixes h t u N :: nat
  assumes "t < N" "u < N" "h = (t + u) mod N"
  shows "(if h \<ge> t then int h - int t else int h + int N - int t) = int u"
proof (cases "t + u < N")
  case True
  then show ?thesis using assms by simp
next
  case False
  then have "(t + u) mod N = t + u - N"
    using assms by (simp add: mod_if)
  then show ?thesis using assms False by auto
qed

lemma ioQueue_used:
  assumes "ioQueue cfg s evs"
  shows "jshGetEventsUsed cfg s = int (length (concat (map encodeEvent evs)))"
proof -
  have t: "ioTail s < IOBUFFERMASK cfg + 1"
    and u: "length (concat (map encodeEvent evs)) < IOBUFFERMASK cfg + 1"
    and h: "ioHead s = (ioTail s + length (concat (map encodeEvent evs))) mod (IOBUFFERMASK cfg + 1)"
    using assms by (simp_all add: ioQueue_def)
  from used_mod [OF t u h] show ?thesis
    by (auto simp: jshGetEventsUsed_def split: if_splits)
qed


lemma ioQueue_empty_iff:
  assumes "ioQueue cfg s evs"
  shows "ioHead s = ioTail s \<longleftrightarrow> evs = []"
proof -
  define u where "u = length (concat (map encodeEvent evs))"
  have t: "ioTail s < IOBUFFERMASK cfg + 1"
    and u: "u < IOBUFFERMASK cfg + 1"
    and h: "ioHead s = (ioTail s + u) mod (IOBUFFERMASK cfg + 1)"
    using assms by (simp_all add: ioQueue_def u_def)
  have "ioHead s = ioTail s \<longleftrightarrow> u = 0"
  proof
    assume "ioHead s = ioTail s"
    then have "(ioTail s + u) mod (IOBUFFERMASK cfg + 1) = (ioTail s + 0) mod (IOBUFFERMASK cfg + 1)"
      using h t by simp
    from mod_add_inj [OF u _ this] show "u = 0" by simp
  next
    assume "u = 0"
    then show "ioHead s = ioTail s" using h t by simp
  qed
  also have "u = 0 \<longleftrightarrow> evs = []"
    unfolding u_def by (cases evs) auto
  finally show ?thesis .
qed

lemma jshPushEvent_full:
  assumes "len \<le> IOEVENT_MAX_LEN cfg"
    and "jshGetIOCharEventsFree cfg s < int len + 2"
  shows "jshPushEvent cfg evt d len s =
           (False, s\<lparr>jsErrorFlags := jsErrorFlags s OR JSERR_RX_FIFO_FULL cfg\<rparr>)"
  using assms by (simp add: jshPushEvent_def jshIOEventOverflowed_def)

lemma jshPushEvent_space:
  assumes msk: "IOBUFFERMASK cfg = 2 ^ k - 1"
    and q: "ioQueue cfg s evs"
    and len: "len \<le> IOEVENT_MAX_LEN cfg" "len < 256" "len \<le> length d"
    and space: "int len + 2 \<le> jshGetIOCharEventsFree cfg s"
  shows "jshPushEvent cfg evt d len s =
           (True, s\<lparr>ioBuffer := ringWrite (ioBuffer s) (ioHead s) (encodeEvent (evt, take len d)),
                    ioLastHead := ioHead s,
                    ioHead := (ioHead s + (len + 2)) mod (IOBUFFERMASK cfg + 1)\<rparr>)"
proof -
  let ?N = "IOBUFFERMASK cfg + 1"
  have bl: "length (ioBuffer s) = ?N" and h: "ioHead s < ?N"
    using q by (simp_all add: ioQueue_def)
  let ?i1 = "(ioHead s + 1) mod ?N"
  let ?i2 = "(?i1 + 1) mod ?N"
  let ?b1 = "(ioBuffer s)[ioHead s := of_nat len, ?i1 := evt]"
  have push: "jshPushEvent cfg evt d len s =
        (case ioCopyIn (IOBUFFERMASK cfg) d len (?b1, ?i2) of
           (buf2, idx3) \<Rightarrow> (True, s\<lparr>ioBuffer := buf2, ioLastHead := ioHead s, ioHead := idx3\<rparr>))"
    using len space by (simp add: jshPushEvent_def Let_def and_mask_mod [OF msk])
  have c: "ioCopyIn (IOBUFFERMASK cfg) d len (?b1, ?i2) =
           (ringWrite ?b1 ?i2 (take len d), (?i2 + len) mod ?N)"
    by (rule ioCopyIn_eq [OF msk]) (use bl len in simp_all)
  have i2: "?i2 = (ioHead s + 2) mod ?N"
    by (simp add: mod_Suc_eq numeral_2_eq_2)
  have "ringWrite ?b1 ((ioHead s + 2) mod length ?b1) (take len d) =
        ringWrite ?b1 (ioHead s + 2) (take len d)"
    by (rule ringWrite_mod)
  then have w1: "ringWrite ?b1 ?i2 (take len d) = ringWrite ?b1 (ioHead s + 2) (take len d)"
    unfolding i2 using bl by simp
  have w2: "ringWrite (ioBuffer s) (ioHead s) (encodeEvent (evt, take len d)) =
            ringWrite ?b1 (ioHead s + 2) (take len d)"
  proof -
    have "ioHead s mod length (ioBuffer s) = ioHead s" using h bl by simp
    moreover have "length (take len d) = len" using len by simp
    moreover have "ioHead s + 1 + 1 = ioHead s + 2" by simp
    ultimately show ?thesis
      by (simp only: encodeEvent.simps ringWrite.simps length_list_update bl)
  qed
  have "(?i2 + len) mod ?N = ((ioHead s + 2) mod ?N + len) mod ?N" unfolding i2 ..
  also have "\<dots> = (ioHead s + 2 + len) mod ?N" by (rule mod_add_left_eq)
  also have "ioHead s + 2 + len = ioHead s + (len + 2)" by simp
  finally have i3: "(?i2 + len) mod ?N = (ioHead s + (len + 2)) mod ?N" .
  show ?thesis
    unfolding push c by (simp only: prod.case w1 w2 i3)
qed


lemma length_encodeEvent: "length (encodeEvent e) = length (snd e) + 2"
  by (cases e) simp

lemma jshPushEvent_queue:
  assumes msk: "IOBUFFERMASK cfg = 2 ^ k - 1"
    and q: "ioQueue cfg s evs"
    and len: "len \<le> IOEVENT_MAX_LEN cfg" "len < 256" "len \<le> length d"
    and space: "int len + 2 \<le> jshGetIOCharEventsFree cfg s"
  shows "ioQueue cfg (snd (jshPushEvent cfg evt d len s)) (evs @ [(evt, take len d)])"
proof -
  let ?N = "IOBUFFERMASK cfg + 1"
  define bs where "bs = concat (map encodeEvent evs)"
  define enc where "enc = encodeEvent (evt, take len d)"
  have bl: "length (ioBuffer s) = ?N" and t: "ioTail s < ?N"
    and h: "ioHead s = (ioTail s + length bs) mod ?N"
    and r: "ring (ioBuffer s) (ioTail s) (length bs) = bs"
    and la: "list_all (\<lambda>e. length (snd e) < 256) evs"
    using q by (simp_all add: ioQueue_def bs_def)
  have le: "length enc = len + 2" using len by (simp add: enc_def)
  have used: "jshGetEventsUsed cfg s = int (length bs)"
    using ioQueue_used [OF q] by (simp add: bs_def)
  have fit: "length bs + length enc \<le> ?N" and fit': "length bs + length enc < ?N"
    using space used le by (simp_all add: jshGetIOCharEventsFree_def)
  have cc: "concat (map encodeEvent (evs @ [(evt, take len d)])) = bs @ enc"
    by (simp add: bs_def enc_def)
  have "ringWrite (ioBuffer s) ((ioTail s + length bs) mod length (ioBuffer s)) enc =
        ringWrite (ioBuffer s) (ioTail s + length bs) enc"
    by (rule ringWrite_mod)
  then have w: "ringWrite (ioBuffer s) (ioHead s) enc = ringWrite (ioBuffer s) (ioTail s + length bs) enc"
    using h bl by simp
  have rr: "ring (ringWrite (ioBuffer s) (ioHead s) enc) (ioTail s) (length bs + length enc) = bs @ enc"
    unfolding w using ring_ringWrite [of "ioBuffer s" "length bs" enc "ioTail s"] fit bl r by simp
  have "(ioHead s + (len + 2)) mod ?N = ((ioTail s + length bs) mod ?N + length enc) mod ?N"
    using h le by simp
  also have "\<dots> = (ioTail s + length bs + length enc) mod ?N" by (rule mod_add_left_eq)
  finally have hh: "(ioHead s + (len + 2)) mod ?N = (ioTail s + (length bs + length enc)) mod ?N"
    by (simp add: add.assoc)
  have ps: "snd (jshPushEvent cfg evt d len s) =
            s\<lparr>ioBuffer := ringWrite (ioBuffer s) (ioHead s) enc, ioLastHead := ioHead s,
              ioHead := (ioHead s + (len + 2)) mod ?N\<rparr>"
    by (simp only: jshPushEvent_space [OF msk q len space] enc_def snd_conv)
  show ?thesis
    unfolding ps ioQueue_def cc
    using bl t fit' rr hh la len
    by simp
qed


lemma jshPopIOEvent_empty:
  assumes "ioQueue cfg s []"
  shows "jshPopIOEvent cfg s = (EV_NONE cfg, None, s)"
  using ioQueue_empty_iff [OF assms] by (simp add: jshPopIOEvent_def)

lemma ring_decode_first:
  assumes bl: "0 < length buf" and t: "t < length buf"
    and r: "ring buf t (length (encodeEvent (evt, d) @ rest)) = encodeEvent (evt, d) @ rest"
  shows "buf ! t = of_nat (length d)"
    and "buf ! ((t + 1) mod length buf) = evt"
    and "ring buf (t + 2) (length d) = d"
    and "ring buf (t + (length d + 2)) (length rest) = rest"
proof -
  have l: "length (encodeEvent (evt, d) @ rest) = 2 + (length d + length rest)" by simp
  have r1: "ring buf t (2 + (length d + length rest)) =
            ring buf t 2 @ ring buf (t + 2) (length d + length rest)"
    by (rule ring_add)
  have r2: "ring buf (t + 2) (length d + length rest) =
            ring buf (t + 2) (length d) @ ring buf (t + 2 + length d) (length rest)"
    by (rule ring_add)
  have e1: "ring buf t 2 @ (ring buf (t + 2) (length d) @ ring buf (t + 2 + length d) (length rest)) =
        [of_nat (length d), evt] @ (d @ rest)"
    using r unfolding l r1 r2 by simp
  have "ring buf t 2 = [of_nat (length d), evt] \<and>
        ring buf (t + 2) (length d) @ ring buf (t + 2 + length d) (length rest) = d @ rest"
    using e1 by (subst (asm) append_eq_append_conv) simp_all
  then have a: "ring buf t 2 = [of_nat (length d), evt]"
    and b: "ring buf (t + 2) (length d) @ ring buf (t + 2 + length d) (length rest) = d @ rest"
    by blast+
  have "ring buf (t + 2) (length d) = d \<and> ring buf (t + 2 + length d) (length rest) = rest"
    using b by (subst (asm) append_eq_append_conv) simp_all
  then have c: "ring buf (t + 2) (length d) = d"
    and e: "ring buf (t + 2 + length d) (length rest) = rest"
    by blast+
  from a t show "buf ! t = of_nat (length d)" "buf ! ((t + 1) mod length buf) = evt"
    by (simp_all add: ring_def numeral_2_eq_2)
  from c show "ring buf (t + 2) (length d) = d" .
  from e show "ring buf (t + (length d + 2)) (length rest) = rest"
    by (simp add: add.commute add.left_commute)
qed

lemma jshPopIOEvent_queue:
  assumes msk: "IOBUFFERMASK cfg = 2 ^ k - 1"
    and q: "ioQueue cfg s ((evt, d) # evs)"
  shows "jshPopIOEvent cfg s =
           (evt, Some d,
            s\<lparr>ioLastHead := (if ioLastHead s = ioTail s then ioHead s else ioLastHead s),
              ioTail := (ioTail s + (length d + 2)) mod (IOBUFFERMASK cfg + 1)\<rparr>)"
    and "ioQueue cfg (snd (snd (jshPopIOEvent cfg s))) evs"
proof -
  let ?N = "IOBUFFERMASK cfg + 1"
  define rest where "rest = concat (map encodeEvent evs)"
  have cc: "concat (map encodeEvent ((evt, d) # evs)) = encodeEvent (evt, d) @ rest"
    by (simp add: rest_def)
  have bl: "length (ioBuffer s) = ?N" and t: "ioTail s < ?N"
    and u: "length (encodeEvent (evt, d) @ rest) < ?N"
    and h: "ioHead s = (ioTail s + length (encodeEvent (evt, d) @ rest)) mod ?N"
    and r: "ring (ioBuffer s) (ioTail s) (length (encodeEvent (evt, d) @ rest)) =
              encodeEvent (evt, d) @ rest"
    and ld: "length d < 256"
    and la: "list_all (\<lambda>e. length (snd e) < 256) evs"
    using q unfolding ioQueue_def cc by simp_all
  have ne: "ioHead s \<noteq> ioTail s" using ioQueue_empty_iff [OF q] by simp
  have bl0: "0 < length (ioBuffer s)" and t': "ioTail s < length (ioBuffer s)" using bl t by simp_all
  note dec = ring_decode_first [OF bl0 t' r]
  have len: "unat (ioBuffer s ! ioTail s) = length d"
    unfolding dec(1) using ld by (simp add: unat_of_nat)
  have evt: "ioBuffer s ! ((ioTail s + 1) mod ?N) = evt" using dec(2) bl by simp
  let ?i2 = "((ioTail s + 1) mod ?N + 1) mod ?N"
  have i2: "?i2 = (ioTail s + 2) mod ?N" by (simp add: mod_Suc_eq numeral_2_eq_2)
  have co: "ioCopyOut (IOBUFFERMASK cfg) (ioBuffer s) (length d) ?i2 =
            (ring (ioBuffer s) ?i2 (length d), (?i2 + length d) mod ?N)"
    by (rule ioCopyOut_eq [OF msk]) (use bl in simp_all)
  have "ring (ioBuffer s) ((ioTail s + 2) mod length (ioBuffer s)) (length d) =
        ring (ioBuffer s) (ioTail s + 2) (length d)"
    by (rule ring_mod)
  then have out: "ring (ioBuffer s) ?i2 (length d) = d"
    unfolding i2 using bl dec(3) by simp
  have "(?i2 + length d) mod ?N = ((ioTail s + 2) mod ?N + length d) mod ?N" unfolding i2 ..
  also have "\<dots> = (ioTail s + 2 + length d) mod ?N" by (rule mod_add_left_eq)
  also have "ioTail s + 2 + length d = ioTail s + (length d + 2)" by simp
  finally have i3: "(?i2 + length d) mod ?N = (ioTail s + (length d + 2)) mod ?N" .
  have pop: "jshPopIOEvent cfg s =
        (case ioCopyOut (IOBUFFERMASK cfg) (ioBuffer s) (length d) ?i2 of
           (out, idx3) \<Rightarrow>
             (evt, Some out,
              s\<lparr>ioLastHead := (if ioLastHead s = ioTail s then ioHead s else ioLastHead s),
                ioTail := idx3\<rparr>))"
    using ne len evt by (simp add: jshPopIOEvent_def Let_def and_mask_mod [OF msk])
  show res: "jshPopIOEvent cfg s =
           (evt, Some d,
            s\<lparr>ioLastHead := (if ioLastHead s = ioTail s then ioHead s else ioLastHead s),
              ioTail := (ioTail s + (length d + 2)) mod ?N\<rparr>)"
    unfolding pop co by (simp only: prod.case out i3)
  have "ring (ioBuffer s) ((ioTail s + (length d + 2)) mod length (ioBuffer s)) (length rest) =
        ring (ioBuffer s) (ioTail s + (length d + 2)) (length rest)"
    by (rule ring_mod)
  then have r': "ring (ioBuffer s) ((ioTail s + (length d + 2)) mod ?N) (length rest) = rest"
    using bl dec(4) by simp
  have "((ioTail s + (length d + 2)) mod ?N + length rest) mod ?N =
        (ioTail s + (length d + 2) + length rest) mod ?N"
    by (rule mod_add_left_eq)
  also have "ioTail s + (length d + 2) + length rest = ioTail s + length (encodeEvent (evt, d) @ rest)"
    by simp
  finally have h': "ioHead s = ((ioTail s + (length d + 2)) mod ?N + length rest) mod ?N"
    using h by simp
  have u': "length rest < ?N" using u by simp
  show "ioQueue cfg (snd (snd (jshPopIOEvent cfg s))) evs"
    unfolding res ioQueue_def rest_def [symmetric]
    using bl r' h' u' la by simp
qed

lemma ioQueue_initial: "ioQueue cfg (initial cfg) []"
  by (simp add: ioQueue_def initial_def)

lemma or_flag_set: "(x OR f) AND f = (f :: 32 word)"
  by (auto simp: bit_eq_iff bit_simps)

lemma ioQueue_jsErrorFlags [simp]:
  "ioQueue cfg (s\<lparr>jsErrorFlags := e\<rparr>) evs = ioQueue cfg s evs"
  by (simp add: ioQueue_def)

text \<open>
  Claim C3. For a call jshPushEvent(evt, data, len) that keeps the contract
  \<open>len \<le> IOEVENT_MAX_LEN\<close>, on a buffer that holds the events \<open>evs\<close>: when
  jshGetIOCharEventsFree is less than \<open>len + 2\<close> the call returns false and changes
  nothing but the error flags, in which JSERR_RX_FIFO_FULL is then set, so the buffer,
  ioHead and ioTail are as before; otherwise it returns true, leaves the error flags and
  the tail alone, and the buffer holds the events \<open>evs\<close> followed by the new event.
\<close>

theorem jshPushEvent_full_or_appended:
  assumes msk: "IOBUFFERMASK cfg = 2 ^ k - 1"
    and mx: "IOEVENT_MAX_LEN cfg < 256"
    and q: "ioQueue cfg s evs"
    and len: "len \<le> IOEVENT_MAX_LEN cfg" "len \<le> length d"
  shows
    "(jshGetIOCharEventsFree cfg s < int len + 2 \<longrightarrow>
        jshPushEvent cfg evt d len s =
          (False, s\<lparr>jsErrorFlags := jsErrorFlags s OR JSERR_RX_FIFO_FULL cfg\<rparr>) \<and>
        jsErrorFlags (snd (jshPushEvent cfg evt d len s)) AND JSERR_RX_FIFO_FULL cfg =
          JSERR_RX_FIFO_FULL cfg \<and>
        ioQueue cfg (snd (jshPushEvent cfg evt d len s)) evs) \<and>
     (\<not> jshGetIOCharEventsFree cfg s < int len + 2 \<longrightarrow>
        fst (jshPushEvent cfg evt d len s) = True \<and>
        jsErrorFlags (snd (jshPushEvent cfg evt d len s)) = jsErrorFlags s \<and>
        ioTail (snd (jshPushEvent cfg evt d len s)) = ioTail s \<and>
        ioQueue cfg (snd (jshPushEvent cfg evt d len s)) (evs @ [(evt, take len d)]))"
proof (intro conjI impI)
  assume full: "jshGetIOCharEventsFree cfg s < int len + 2"
  note r = jshPushEvent_full [OF len(1) full, of evt d]
  show "jshPushEvent cfg evt d len s =
          (False, s\<lparr>jsErrorFlags := jsErrorFlags s OR JSERR_RX_FIFO_FULL cfg\<rparr>)"
    by (rule r)
  show "jsErrorFlags (snd (jshPushEvent cfg evt d len s)) AND JSERR_RX_FIFO_FULL cfg =
          JSERR_RX_FIFO_FULL cfg"
    unfolding r by (simp add: or_flag_set)
  show "ioQueue cfg (snd (jshPushEvent cfg evt d len s)) evs"
    unfolding r using q by simp
next
  assume "\<not> jshGetIOCharEventsFree cfg s < int len + 2"
  then have space: "int len + 2 \<le> jshGetIOCharEventsFree cfg s" by simp
  have l256: "len < 256" using len(1) mx by simp
  note r = jshPushEvent_space [OF msk q len(1) l256 len(2) space, of evt]
  show "fst (jshPushEvent cfg evt d len s) = True" unfolding r by simp
  show "jsErrorFlags (snd (jshPushEvent cfg evt d len s)) = jsErrorFlags s" unfolding r by simp
  show "ioTail (snd (jshPushEvent cfg evt d len s)) = ioTail s" unfolding r by simp
  show "ioQueue cfg (snd (jshPushEvent cfg evt d len s)) (evs @ [(evt, take len d)])"
    by (rule jshPushEvent_queue [OF msk q len(1) l256 len(2) space])
qed

lemma io_run_fifo:
  assumes msk: "IOBUFFERMASK cfg = 2 ^ k - 1"
    and mx: "IOEVENT_MAX_LEN cfg < 256"
  shows "ioQueue cfg s q \<Longrightarrow> list_all (io_call_ok cfg) cs \<Longrightarrow>
         Pushed False \<notin> set (io_run cfg cs s) \<Longrightarrow> io_run cfg cs s = fifo_run cfg cs q"
proof (induction cs arbitrary: s q)
  case Nil
  then show ?case by simp
next
  case (Cons c cs)
  show ?case
  proof (cases c)
    case (PushEvent evt d)
    have len: "length d \<le> IOEVENT_MAX_LEN cfg" using Cons.prems(2) PushEvent by simp
    then have l256: "length d < 256" using mx by simp
    have space: "int (length d) + 2 \<le> jshGetIOCharEventsFree cfg s"
    proof (rule ccontr)
      assume "\<not> int (length d) + 2 \<le> jshGetIOCharEventsFree cfg s"
      then have "jshGetIOCharEventsFree cfg s < int (length d) + 2" by simp
      from jshPushEvent_full [OF len this, of evt d] Cons.prems(3) PushEvent
      show False by simp
    qed
    note r = jshPushEvent_space [OF msk Cons.prems(1) len l256 order_refl space, of evt]
    have q': "ioQueue cfg (snd (jshPushEvent cfg evt d (length d) s)) (q @ [(evt, d)])"
      using jshPushEvent_queue [OF msk Cons.prems(1) len l256 order_refl space, of evt] by simp
    have nf: "Pushed False \<notin> set (io_run cfg cs (snd (jshPushEvent cfg evt d (length d) s)))"
      using Cons.prems(3) PushEvent by (cases "jshPushEvent cfg evt d (length d) s") simp
    have ok: "list_all (io_call_ok cfg) cs" using Cons.prems(2) by simp
    have "io_run cfg cs (snd (jshPushEvent cfg evt d (length d) s)) = fifo_run cfg cs (q @ [(evt, d)])"
      by (rule Cons.IH [OF q' ok nf])
    then show ?thesis
      using PushEvent r by (simp split: prod.splits)
  next
    case PopEvent
    have ok: "list_all (io_call_ok cfg) cs" using Cons.prems(2) by simp
    have nf: "Pushed False \<notin> set (io_run cfg cs (snd (snd (jshPopIOEvent cfg s))))"
      using Cons.prems(3) PopEvent by (cases "jshPopIOEvent cfg s") simp
    show ?thesis
    proof (cases q)
      case Nil
      have e: "jshPopIOEvent cfg s = (EV_NONE cfg, None, s)"
        using jshPopIOEvent_empty Cons.prems(1) Nil by simp
      have "io_run cfg cs s = fifo_run cfg cs []"
        using Cons.IH [of s "[]"] Cons.prems(1) Nil ok nf e by simp
      then show ?thesis using PopEvent Nil e by simp
    next
      case (Cons e q')
      obtain evt d where ed: "e = (evt, d)" by (cases e)
      have qq: "ioQueue cfg s ((evt, d) # q')" using Cons.prems(1) Cons ed by simp
      note r = jshPopIOEvent_queue [OF msk qq]
      have "io_run cfg cs (snd (snd (jshPopIOEvent cfg s))) = fifo_run cfg cs q'"
        by (rule Cons.IH [OF r(2) ok nf])
      then show ?thesis using PopEvent Cons ed r(1) by simp
    qed
  qed
qed


lemma board_consts:
  "IOBUFFERMASK board = 2 ^ 5 - 1" "IOEVENT_MAX_LEN board < 256" "IOEVENT_MAX_LEN board = 12"
  "TXBUFFERMASK board = 2 ^ 3 - 1"
  by (simp_all add: board_def board0_def)

text \<open>
  Claim C1. For every sequence of jshPushEvent and jshPopIOEvent calls in which every
  push keeps the contract \<open>length \<le> IOEVENT_MAX_LEN\<close> and no push fails for lack of
  space, the calls return what the first-in first-out queue of events returns: every
  pop gives the oldest event not yet popped, with the flags and the payload (and so the
  length) it was pushed with, and EV_NONE when there is none.
\<close>

theorem push_pop_fifo:
  assumes "IOBUFFERMASK cfg = 2 ^ k - 1"
    and "IOEVENT_MAX_LEN cfg < 256"
    and "ioQueue cfg s q"
    and "list_all (io_call_ok cfg) cs"
    and "Pushed False \<notin> set (io_run cfg cs s)"
  shows "io_run cfg cs s = fifo_run cfg cs q"
  using assms by (rule io_run_fifo)

lemma io_run_example: "io_run board [PushEvent 20 [1, 2], PushEvent 21 [3], PopEvent, PopEvent, PopEvent]
       (initial board) =
     [Pushed True, Pushed True, Popped 20 (Some [1, 2]), Popped 21 (Some [3]), Popped 0 None]"
  by code_simp

theorem push_pop_fifo_witness:
  "io_run board [PushEvent 20 [1, 2], PushEvent 21 [3], PopEvent, PopEvent, PopEvent]
       (initial board) =
     fifo_run board [PushEvent 20 [1, 2], PushEvent 21 [3], PopEvent, PopEvent, PopEvent] [] \<and>
   fifo_run board [PushEvent 20 [1, 2], PushEvent 21 [3], PopEvent, PopEvent, PopEvent] [] =
     [Pushed True, Pushed True, Popped 20 (Some [1, 2]), Popped 21 (Some [3]), Popped 0 None]"
proof -
  have nf: "Pushed False \<notin> set (io_run board
       [PushEvent 20 [1, 2], PushEvent 21 [3], PopEvent, PopEvent, PopEvent] (initial board))"
    unfolding io_run_example by simp
  have ok: "list_all (io_call_ok board)
       [PushEvent 20 [1, 2], PushEvent 21 [3], PopEvent, PopEvent, PopEvent]"
    by (simp add: board_consts)
  show ?thesis
    using push_pop_fifo [OF board_consts(1) board_consts(2) ioQueue_initial ok nf]
    by (simp add: board_def board0_def)
qed


theorem jshPushEvent_full_or_appended_witness:
  "jshPushEvent board 21 [1, 2, 3] 3
      (snd (jshPushEvent board 20 (replicate 10 7) 10
         (snd (jshPushEvent board 20 (replicate 10 7) 10 (initial board))))) =
     (False,
      (snd (jshPushEvent board 20 (replicate 10 7) 10
         (snd (jshPushEvent board 20 (replicate 10 7) 10 (initial board)))))
        \<lparr>jsErrorFlags := 1\<rparr>) \<and>
   fst (jshPushEvent board 21 [1, 2, 3] 3 (initial board)) = True \<and>
   ioQueue board (snd (jshPushEvent board 21 [1, 2, 3] 3 (initial board))) [(21, [1, 2, 3])]"
proof -
  let ?s1 = "snd (jshPushEvent board 20 (replicate 10 7) 10 (initial board))"
  let ?s2 = "snd (jshPushEvent board 20 (replicate 10 7) 10 ?s1)"
  have f0: "jshGetIOCharEventsFree board (initial board) = 28" by code_simp
  have f1: "jshGetIOCharEventsFree board ?s1 = 16" by code_simp
  have f2: "jshGetIOCharEventsFree board ?s2 = 4" by code_simp
  have e2: "jsErrorFlags ?s2 = 0" by code_simp
  have q1: "ioQueue board ?s1 ([] @ [(20, take 10 (replicate 10 7))])"
    by (rule jshPushEvent_queue [OF board_consts(1) ioQueue_initial])
       (simp_all add: f0 board_consts)
  have q2: "ioQueue board ?s2 (([] @ [(20, take 10 (replicate 10 7))]) @ [(20, take 10 (replicate 10 7))])"
    by (rule jshPushEvent_queue [OF board_consts(1) q1]) (simp_all add: f1 board_consts)
  have l: "(3::nat) \<le> IOEVENT_MAX_LEN board" "(3::nat) \<le> length [1, 2, 3 :: 8 word]"
    by (simp_all add: board_consts)
  from jshPushEvent_full_or_appended [OF board_consts(1) board_consts(2) q2 l, of 21]
    jshPushEvent_full_or_appended [OF board_consts(1) board_consts(2) ioQueue_initial l, of 21]
  show ?thesis
    by (simp add: f0 f2 e2) (simp add: board_def board0_def)
qed

section \<open>Transmitting into a full buffer\<close>

lemma jshTransmitWait_spins:
  assumes "\<forall>m<n. txTail ((jshBusyIdle cfg ^^ m) s) = txHeadNext \<and>
                   \<not> jshIsInInterrupt ((jshBusyIdle cfg ^^ m) s)"
    and "txTail ((jshBusyIdle cfg ^^ n) s) \<noteq> txHeadNext"
  shows "jshTransmitWait cfg txHeadNext s = Some (True, (jshBusyIdle cfg ^^ n) s)"
  using assms
proof (induction n arbitrary: s)
  case 0
  then show ?case by (simp add: jshTransmitWait.simps)
next
  case (Suc n)
  have now: "txTail s = txHeadNext" "\<not> jshIsInInterrupt s"
    using Suc.prems(1) [rule_format, of 0] by simp_all
  have later: "\<forall>m<n. txTail ((jshBusyIdle cfg ^^ m) (jshBusyIdle cfg s)) = txHeadNext \<and>
                   \<not> jshIsInInterrupt ((jshBusyIdle cfg ^^ m) (jshBusyIdle cfg s))"
    using Suc.prems(1) by (metis Suc_less_eq funpow_Suc_right o_apply)
  have fin: "txTail ((jshBusyIdle cfg ^^ n) (jshBusyIdle cfg s)) \<noteq> txHeadNext"
    using Suc.prems(2) by (simp add: funpow_swap1)
  have "jshTransmitWait cfg txHeadNext s = jshTransmitWait cfg txHeadNext (jshBusyIdle cfg s)"
    using now by (subst jshTransmitWait.simps) simp
  also have "\<dots> = Some (True, (jshBusyIdle cfg ^^ n) (jshBusyIdle cfg s))"
    by (rule Suc.IH [OF later fin])
  finally show ?case by (simp add: funpow_swap1)
qed

lemma jshTransmitWait_returns:
  assumes "jshTransmitWait cfg txHeadNext s = Some r"
  shows "\<exists>m. \<not> (txTail ((jshBusyIdle cfg ^^ m) s) = txHeadNext \<and>
                 \<not> jshIsInInterrupt ((jshBusyIdle cfg ^^ m) s))"
proof (rule jshTransmitWait.raw_induct
    [where P = "\<lambda>cfg txHeadNext s r. \<exists>m. \<not> (txTail ((jshBusyIdle cfg ^^ m) s) = txHeadNext \<and>
                 \<not> jshIsInInterrupt ((jshBusyIdle cfg ^^ m) s))", OF _ assms])
  fix wait cfg txHeadNext s r
  assume IH: "\<And>c h s' y. wait c h s' = Some y \<Longrightarrow>
          \<exists>m. \<not> (txTail ((jshBusyIdle c ^^ m) s') = h \<and>
                 \<not> jshIsInInterrupt ((jshBusyIdle c ^^ m) s'))"
    and eq: "(if txHeadNext = txTail s
              then if jshIsInInterrupt s
                   then Some (False, s\<lparr>jsErrorFlags := jsErrorFlags s OR JSERR_BUFFER_FULL cfg\<rparr>)
                   else wait cfg txHeadNext (jshBusyIdle cfg s)
              else Some (True, s)) = Some r"
  show "\<exists>m. \<not> (txTail ((jshBusyIdle cfg ^^ m) s) = txHeadNext \<and>
                 \<not> jshIsInInterrupt ((jshBusyIdle cfg ^^ m) s))"
  proof (cases "txHeadNext = txTail s \<and> \<not> jshIsInInterrupt s")
    case True
    then have "wait cfg txHeadNext (jshBusyIdle cfg s) = Some r" using eq by simp
    from IH [OF this] obtain m where
      "\<not> (txTail ((jshBusyIdle cfg ^^ m) (jshBusyIdle cfg s)) = txHeadNext \<and>
          \<not> jshIsInInterrupt ((jshBusyIdle cfg ^^ m) (jshBusyIdle cfg s)))" ..
    then have "\<not> (txTail ((jshBusyIdle cfg ^^ Suc m) s) = txHeadNext \<and>
          \<not> jshIsInInterrupt ((jshBusyIdle cfg ^^ Suc m) s))"
      by (simp add: funpow_swap1)
    then show ?thesis ..
  next
    case False
    then have "\<not> (txTail ((jshBusyIdle cfg ^^ 0) s) = txHeadNext \<and>
          \<not> jshIsInInterrupt ((jshBusyIdle cfg ^^ 0) s))" by auto
    then show ?thesis ..
  qed
qed

lemma jshTransmitWait_forever:
  assumes "\<forall>m. txTail ((jshBusyIdle cfg ^^ m) s) = txHeadNext \<and>
               \<not> jshIsInInterrupt ((jshBusyIdle cfg ^^ m) s)"
  shows "jshTransmitWait cfg txHeadNext s = None"
proof (cases "jshTransmitWait cfg txHeadNext s")
  case None
  then show ?thesis .
next
  case (Some r)
  from jshTransmitWait_returns [OF this] assms show ?thesis by blast
qed


lemma jsiSetBusy_sel:
  "txTail (jsiSetBusy cfg dev b s) = txTail s"
  "txHead (jsiSetBusy cfg dev b s) = txHead s"
  "txBuffer (jsiSetBusy cfg dev b s) = txBuffer s"
  "jshIsInInterrupt (jsiSetBusy cfg dev b s) = jshIsInInterrupt s"
  "consoleDevice (jsiSetBusy cfg dev b s) = consoleDevice s"
  "jsErrorFlags (jsiSetBusy cfg dev b s) = jsErrorFlags s"
  by (simp_all add: jsiSetBusy_def Let_def jshPinOutput_def)

lemma jshTransmitStore_sel:
  "txBuffer (jshTransmitStore n dev d s) = (txBuffer s)[txHead s := \<lparr>flags = dev, data = d\<rparr>]"
  "txHead (jshTransmitStore n dev d s) = n"
  "txTail (jshTransmitStore n dev d s) = txTail s"
  "hal (jshTransmitStore n dev d s) = hal s @ [USARTKick dev]"
  by (simp_all add: jshTransmitStore_def jshUSARTKick_def)

lemma jshTransmitStore_queue:
  assumes msk: "TXBUFFERMASK cfg = 2 ^ k - 1"
    and q: "txQueue cfg s items"
    and nf: "(txHead s + 1) AND TXBUFFERMASK cfg \<noteq> txTail s"
  shows "txQueue cfg (jshTransmitStore ((txHead s + 1) AND TXBUFFERMASK cfg) dev d s)
           (items @ [\<lparr>flags = dev, data = d\<rparr>])"
proof -
  let ?N = "TXBUFFERMASK cfg + 1"
  let ?x = "\<lparr>flags = dev, data = d\<rparr>"
  have bl: "length (txBuffer s) = ?N" and t: "txTail s < ?N" and L: "length items < ?N"
    and h: "txHead s = (txTail s + length items) mod ?N"
    and r: "ring (txBuffer s) (txTail s) (length items) = items"
    using q by (simp_all add: txQueue_def)
  have hn: "(txHead s + 1) AND TXBUFFERMASK cfg = (txTail s + (length items + 1)) mod ?N"
  proof -
    have "(txHead s + 1) AND TXBUFFERMASK cfg = (txHead s + 1) mod ?N" by (rule and_mask_mod [OF msk])
    also have "\<dots> = (txTail s + length items + 1) mod ?N" unfolding h by (rule mod_add_left_eq)
    finally show ?thesis by (simp add: add.assoc)
  qed
  have room: "length items < TXBUFFERMASK cfg"
  proof (rule ccontr)
    assume "\<not> length items < TXBUFFERMASK cfg"
    then have e: "length items + 1 = ?N" using L by simp
    have "(txTail s + ?N) mod ?N = txTail s" using t by (simp only: mod_add_self2 mod_less)
    then have "(txTail s + (length items + 1)) mod ?N = txTail s" unfolding e .
    then show False using nf hn by simp
  qed
  let ?s' = "jshTransmitStore ((txHead s + 1) AND TXBUFFERMASK cfg) dev d s"
  have sel: "txBuffer ?s' = (txBuffer s)[txHead s := ?x]" "txTail ?s' = txTail s"
    "txHead ?s' = (txTail s + (length items + 1)) mod ?N"
    unfolding jshTransmitStore_sel hn by (rule refl)+
  have hlt: "txHead s < ?N" unfolding h by simp
  have "ring ((txBuffer s)[txHead s := ?x]) (txTail s) (length items + 1) =
        ring ((txBuffer s)[txHead s := ?x]) (txTail s) (length items) @
        ring ((txBuffer s)[txHead s := ?x]) (txTail s + length items) 1"
    by (rule ring_add)
  moreover have "ring ((txBuffer s)[txHead s := ?x]) (txTail s + length items) 1 = [?x]"
    using hlt bl h by (simp add: ring_def)
  moreover have "ring ((txBuffer s)[txHead s := ?x]) (txTail s) (length items) =
                 ring (txBuffer s) (txTail s) (length items)"
  proof (rule nth_equalityI)
    show "length (ring ((txBuffer s)[txHead s := ?x]) (txTail s) (length items)) =
          length (ring (txBuffer s) (txTail s) (length items))"
      by (simp add: ring_def)
  next
    fix i assume "i < length (ring ((txBuffer s)[txHead s := ?x]) (txTail s) (length items))"
    then have i: "i < length items" by (simp add: ring_def)
    have "(txTail s + i) mod ?N \<noteq> txHead s"
    proof
      assume "(txTail s + i) mod ?N = txHead s"
      then have "(txTail s + i) mod ?N = (txTail s + length items) mod ?N" using h by simp
      from mod_add_inj [OF _ _ this] i room show False by simp
    qed
    then show "ring ((txBuffer s)[txHead s := ?x]) (txTail s) (length items) ! i =
               ring (txBuffer s) (txTail s) (length items) ! i"
      using i bl by (simp add: ring_def)
  qed
  ultimately have "ring ((txBuffer s)[txHead s := ?x]) (txTail s) (length items + 1) = items @ [?x]"
    using r by simp
  then show "txQueue cfg ?s' (items @ [?x])"
    unfolding txQueue_def sel using bl t room by simp
qed

lemma txQueue_jsiSetBusy:
  "txQueue cfg (jsiSetBusy cfg dev b s) items = txQueue cfg s items"
  by (simp add: txQueue_def jsiSetBusy_sel)

text \<open>
  Claim C6. For a call jshTransmit(device, byte) that goes to the transmit buffer (the
  device is neither a loopback device nor EV_NONE) while the buffer is full: in
  interrupt context the call returns at once, the byte is dropped (buffer, head and tail
  are as before) and JSERR_BUFFER_FULL is set. Outside interrupt context the call calls
  jshBusyIdle once per spin for as long as the tail has not moved. When the tail has
  moved after \<open>n\<close> calls, which leave the state \<open>sn\<close>, the call returns: the slot at the
  head holds the item \<open>item\<close> with the byte (its device being the new console device when
  the byte was for the console in limbo), every other slot is as in \<open>sn\<close>, the head has
  advanced by one and the tail is where the wait has left it; and when jshBusyIdle has
  taken items from the queue without touching the head, so that the buffer holds the
  queue \<open>items\<close> in \<open>sn\<close>, it holds \<open>items @ [item]\<close> afterwards. When the tail never
  moves the call never returns.
\<close>

theorem jshTransmit_when_full:
  assumes dev: "device \<noteq> EV_LOOPBACKA cfg" "device \<noteq> EV_LOOPBACKB cfg" "device \<noteq> EV_NONE cfg"
    and full: "(txHead s + 1) AND TXBUFFERMASK cfg = txTail s"
    and s1: "s1 = jsiSetBusy cfg (BUSY_TRANSMIT cfg) True s"
    and sn: "sn = (jshBusyIdle cfg ^^ n) s1"
    and item: "item = \<lparr>flags = (if (device = EV_LIMBO cfg \<and> consoleDevice s = EV_LIMBO cfg) \<and>
                                  consoleDevice sn \<noteq> EV_LIMBO cfg
                               then consoleDevice sn else device),
                       data = d\<rparr>"
  shows
    "(jshIsInInterrupt s \<longrightarrow>
        jshTransmit cfg device d s =
          Some (s1\<lparr>jsErrorFlags := jsErrorFlags s OR JSERR_BUFFER_FULL cfg\<rparr>) \<and>
        txBuffer s1 = txBuffer s \<and> txHead s1 = txHead s \<and> txTail s1 = txTail s \<and>
        (jsErrorFlags s OR JSERR_BUFFER_FULL cfg) AND JSERR_BUFFER_FULL cfg = JSERR_BUFFER_FULL cfg) \<and>
     ((\<forall>m<n. txTail ((jshBusyIdle cfg ^^ m) s1) = txTail s \<and>
               \<not> jshIsInInterrupt ((jshBusyIdle cfg ^^ m) s1)) \<and>
      txTail sn \<noteq> txTail s \<longrightarrow>
        (\<exists>s'. jshTransmit cfg device d s = Some s' \<and>
              s' = jshTransmitStore (txTail s) (flags item) d
                     (jsiSetBusy cfg (BUSY_TRANSMIT cfg) False sn) \<and>
              txBuffer s' = (txBuffer sn)[txHead sn := item] \<and>
              txHead s' = (txHead s + 1) AND TXBUFFERMASK cfg \<and>
              txTail s' = txTail sn \<and>
              (TXBUFFERMASK cfg = 2 ^ k - 1 \<and> txQueue cfg sn items \<and> txHead sn = txHead s \<longrightarrow>
                 txQueue cfg s' (items @ [item])))) \<and>
     ((\<forall>m. txTail ((jshBusyIdle cfg ^^ m) s1) = txTail s \<and>
            \<not> jshIsInInterrupt ((jshBusyIdle cfg ^^ m) s1)) \<longrightarrow>
        jshTransmit cfg device d s = None)"
proof (intro conjI impI)
  assume irq: "jshIsInInterrupt s"
  have "jshTransmitWait cfg (txTail s) s1 =
          Some (False, s1\<lparr>jsErrorFlags := jsErrorFlags s OR JSERR_BUFFER_FULL cfg\<rparr>)"
    using irq by (subst jshTransmitWait.simps) (simp add: s1 jsiSetBusy_sel)
  then show "jshTransmit cfg device d s =
          Some (s1\<lparr>jsErrorFlags := jsErrorFlags s OR JSERR_BUFFER_FULL cfg\<rparr>)"
    using dev full by (simp add: jshTransmit_def s1)
next
  assume w: "(\<forall>m<n. txTail ((jshBusyIdle cfg ^^ m) s1) = txTail s \<and>
               \<not> jshIsInInterrupt ((jshBusyIdle cfg ^^ m) s1)) \<and>
      txTail sn \<noteq> txTail s"
  let ?s2 = "jsiSetBusy cfg (BUSY_TRANSMIT cfg) False sn"
  let ?s' = "jshTransmitStore (txTail s) (flags item) d ?s2"
  have it: "item = \<lparr>flags = flags item, data = d\<rparr>" unfolding item by simp
  have "jshTransmitWait cfg (txTail s) s1 = Some (True, sn)"
    unfolding sn using w [unfolded sn] by (intro jshTransmitWait_spins) simp_all
  then have tr: "jshTransmit cfg device d s = Some ?s'"
    using dev full by (simp add: jshTransmit_def s1 item)
  have b: "txBuffer ?s' = (txBuffer sn)[txHead sn := item]"
    unfolding jshTransmitStore_sel jsiSetBusy_sel it [symmetric] ..
  have h: "txHead ?s' = (txHead s + 1) AND TXBUFFERMASK cfg"
    unfolding jshTransmitStore_sel full ..
  have t: "txTail ?s' = txTail sn"
    unfolding jshTransmitStore_sel jsiSetBusy_sel ..
  have qq: "txQueue cfg ?s' (items @ [item])"
    if "TXBUFFERMASK cfg = 2 ^ k - 1 \<and> txQueue cfg sn items \<and> txHead sn = txHead s"
  proof -
    have msk: "TXBUFFERMASK cfg = 2 ^ k - 1" and q: "txQueue cfg sn items"
      and hd: "txHead sn = txHead s" using that by blast+
    have q2: "txQueue cfg ?s2 items" using q by (simp add: txQueue_jsiSetBusy)
    have nx: "(txHead ?s2 + 1) AND TXBUFFERMASK cfg = txTail s"
      using full hd by (simp add: jsiSetBusy_sel)
    have nf: "(txHead ?s2 + 1) AND TXBUFFERMASK cfg \<noteq> txTail ?s2"
      unfolding nx using w by (simp add: jsiSetBusy_sel)
    from jshTransmitStore_queue [OF msk q2 nf, of "flags item" d]
    show ?thesis unfolding nx it [symmetric] .
  qed
  show "\<exists>s'. jshTransmit cfg device d s = Some s' \<and>
              s' = jshTransmitStore (txTail s) (flags item) d
                     (jsiSetBusy cfg (BUSY_TRANSMIT cfg) False sn) \<and>
              txBuffer s' = (txBuffer sn)[txHead sn := item] \<and>
              txHead s' = (txHead s + 1) AND TXBUFFERMASK cfg \<and>
              txTail s' = txTail sn \<and>
              (TXBUFFERMASK cfg = 2 ^ k - 1 \<and> txQueue cfg sn items \<and> txHead sn = txHead s \<longrightarrow>
                 txQueue cfg s' (items @ [item]))"
    using tr b h t qq by (intro exI [of _ ?s']) blast
next
  assume "\<forall>m. txTail ((jshBusyIdle cfg ^^ m) s1) = txTail s \<and>
            \<not> jshIsInInterrupt ((jshBusyIdle cfg ^^ m) s1)"
  then have "jshTransmitWait cfg (txTail s) s1 = None"
    by (rule jshTransmitWait_forever)
  then show "jshTransmit cfg device d s = None"
    using dev full by (simp add: jshTransmit_def s1)
qed (simp_all add: s1 jsiSetBusy_sel or_flag_set)



lemma funpow_id_apply: "((\<lambda>x. x) ^^ m) s = s"
  by (induction m) simp_all

theorem jshTransmit_when_full_witness:
  "jshTransmit board 20 0x41 ((initial board)\<lparr>txHead := 7, jshIsInInterrupt := True\<rparr>) =
     Some ((initial board)\<lparr>txHead := 7, jshIsInInterrupt := True, business := 2, jsErrorFlags := 2\<rparr>) \<and>
   jshTransmit board 20 0x41 ((initial board)\<lparr>txHead := 7\<rparr>) =
     Some ((initial board)
             \<lparr>txBuffer := (txBuffer (initial board))[7 := \<lparr>flags = 20, data = 0x41\<rparr>],
              txHead := 0, txTail := 1, hal := [USARTKick 20]\<rparr>) \<and>
   txQueue board
     ((initial board)
        \<lparr>txBuffer := (txBuffer (initial board))[7 := \<lparr>flags = 20, data = 0x41\<rparr>],
         txHead := 0, txTail := 1, hal := [USARTKick 20]\<rparr>)
     (replicate 6 \<lparr>flags = 0, data = 0\<rparr> @ [\<lparr>flags = 20, data = 0x41\<rparr>]) \<and>
   jshTransmit (board\<lparr>jshBusyIdle := (\<lambda>s. s)\<rparr>) 20 0x41 ((initial board)\<lparr>txHead := 7\<rparr>) = None"
proof -
  let ?s = "(initial board)\<lparr>txHead := 7\<rparr>"
  let ?i = "(initial board)\<lparr>txHead := 7, jshIsInInterrupt := True\<rparr>"
  let ?b = "board\<lparr>jshBusyIdle := (\<lambda>s. s)\<rparr>"
  let ?sn = "(initial board)\<lparr>txHead := 7, business := 2, txTail := 1\<rparr>"
  let ?r = "(initial board)
             \<lparr>txBuffer := (txBuffer (initial board))[7 := \<lparr>flags = 20, data = 0x41\<rparr>],
              txHead := 0, txTail := 1, hal := [USARTKick 20]\<rparr>"
  have dev: "(20 :: 8 word) \<noteq> EV_LOOPBACKA board" "(20 :: 8 word) \<noteq> EV_LOOPBACKB board"
    "(20 :: 8 word) \<noteq> EV_NONE board"
    and dev': "(20 :: 8 word) \<noteq> EV_LOOPBACKA ?b" "(20 :: 8 word) \<noteq> EV_LOOPBACKB ?b"
    "(20 :: 8 word) \<noteq> EV_NONE ?b"
    by (simp_all add: board_def board0_def)
  have full: "(txHead ?s + 1) AND TXBUFFERMASK board = txTail ?s"
    "(txHead ?i + 1) AND TXBUFFERMASK board = txTail ?i"
    "(txHead ?s + 1) AND TXBUFFERMASK ?b = txTail ?s"
    by (simp_all add: board_def board0_def initial_def)
  have s1: "jsiSetBusy board (BUSY_TRANSMIT board) True ?s = ?s\<lparr>business := 2\<rparr>"
    "jsiSetBusy board (BUSY_TRANSMIT board) True ?i = ?i\<lparr>business := 2\<rparr>"
    "jsiSetBusy ?b (BUSY_TRANSMIT ?b) True ?s = ?s\<lparr>business := 2\<rparr>"
    by (simp_all add: jsiSetBusy_def Let_def board_def board0_def initial_def)
  have idle: "jshBusyIdle board = (\<lambda>s. s\<lparr>txTail := (txTail s + 1) AND 7\<rparr>)"
    by (simp add: board_def board0_def)
  have sn: "?sn = (jshBusyIdle board ^^ 1) (?s\<lparr>business := 2\<rparr>)"
    by (simp add: idle initial_def)
  have item: "\<lparr>flags = 20, data = 0x41\<rparr> =
              \<lparr>flags = (if ((20 :: 8 word) = EV_LIMBO board \<and> consoleDevice ?s = EV_LIMBO board) \<and>
                            consoleDevice ?sn \<noteq> EV_LIMBO board
                         then consoleDevice ?sn else 20),
               data = (0x41 :: 8 word)\<rparr>"
    by (simp add: board_def board0_def)
  have qn: "txQueue board ?sn (replicate 6 \<lparr>flags = 0, data = 0\<rparr>)"
    by code_simp
  have a: "jshTransmit board 20 0x41 ?i =
             Some ((?i\<lparr>business := 2\<rparr>)\<lparr>jsErrorFlags := jsErrorFlags ?i OR JSERR_BUFFER_FULL board\<rparr>)"
    using jshTransmit_when_full [OF dev full(2) s1(2) [symmetric] refl refl,
        where n = 0 and d = "0x41"] by simp
  have w: "(\<forall>m<1. txTail ((jshBusyIdle board ^^ m) (?s\<lparr>business := 2\<rparr>)) = txTail ?s \<and>
               \<not> jshIsInInterrupt ((jshBusyIdle board ^^ m) (?s\<lparr>business := 2\<rparr>))) \<and>
           txTail ?sn \<noteq> txTail ?s"
    by (simp add: initial_def)
  have hd: "TXBUFFERMASK board = 2 ^ 3 - 1 \<and>
            txQueue board ?sn (replicate 6 \<lparr>flags = 0, data = 0\<rparr>) \<and> txHead ?sn = txHead ?s"
    using qn by (simp add: board_consts)
  from jshTransmit_when_full [OF dev full(1) s1(1) [symmetric] sn item,
      where k = 3 and items = "replicate 6 \<lparr>flags = 0, data = 0\<rparr>"] w hd
  obtain s' where
    tr: "jshTransmit board 20 0x41 ?s = Some s'"
    and st: "s' = jshTransmitStore (txTail ?s) (flags \<lparr>flags = 20, data = (0x41 :: 8 word)\<rparr>) 0x41
                    (jsiSetBusy board (BUSY_TRANSMIT board) False ?sn)"
    and q: "txQueue board s' (replicate 6 \<lparr>flags = 0, data = 0\<rparr> @ [\<lparr>flags = 20, data = 0x41\<rparr>])"
    by blast
  have r: "s' = ?r"
    unfolding st
    by (simp add: jshTransmitStore_def jshUSARTKick_def jsiSetBusy_def Let_def)
       (simp add: board_def board0_def initial_def)
  have c: "jshTransmit ?b 20 0x41 ?s = None"
    using jshTransmit_when_full [OF dev' full(3) s1(3) [symmetric] refl refl,
        where n = 0 and d = "0x41"]
    by (simp add: funpow_id_apply initial_def)
  have a': "jshTransmit board 20 0x41 ?i =
     Some ((initial board)\<lparr>txHead := 7, jshIsInInterrupt := True, business := 2, jsErrorFlags := 2\<rparr>)"
    unfolding a by (simp add: board_def board0_def initial_def)
  show ?thesis using a' tr q c unfolding r by (intro conjI)
qed

section \<open>The transmit buffer: first in, first out for each device\<close>

lemma ring_Cons: "ring buf a (Suc k) = buf ! (a mod length buf) # ring buf (a + 1) k"
  using ring_add [of buf a 1 k] by (simp add: ring_def)

lemma ring_1: "ring buf a (Suc 0) = [buf ! (a mod length buf)]"
  by (simp add: ring_def)

lemma ring_update_before:
  assumes "k < length buf"
  shows "ring (buf[a mod length buf := v]) (a + 1) k = ring buf (a + 1) k"
proof -
  have "ring (buf[((a + 1) + (length buf - 1)) mod length buf := v]) (a + 1) k = ring buf (a + 1) k"
    by (rule ring_update_outside) (use assms in simp_all)
  moreover have "(a + 1) + (length buf - 1) = a + length buf"
    using assms by simp
  ultimately show ?thesis by (simp only: mod_add_self2)
qed

lemma pred_mod:
  fixes a N :: nat
  assumes "0 < N"
  shows "((a + 1) mod N + (N - 1)) mod N = a mod N"
proof -
  have "((a + 1) mod N + (N - 1)) mod N = ((a + 1) + (N - 1)) mod N"
    by (rule mod_add_left_eq)
  also have "(a + 1) + (N - 1) = a + N" using assms by simp
  finally show ?thesis by simp
qed

lemma txShiftBack_shift:
  assumes msk: "msk = 2 ^ k - 1" and len: "length buf = msk + 1" and t: "t < msk + 1"
  shows "m < msk + 1 \<Longrightarrow> length buf = msk + 1 \<Longrightarrow>
         \<exists>buf'. txShiftBack msk t buf ((t + m) mod (msk + 1)) ((t + m + msk) mod (msk + 1)) = Some buf' \<and>
               length buf' = msk + 1 \<and>
               ring buf' (t + 1) m = ring buf t m \<and>
               (\<forall>j. m + 1 + j \<le> msk + 1 \<longrightarrow> ring buf' (t + m + 1) j = ring buf (t + m + 1) j)"
proof (induction m arbitrary: buf)
  case 0
  then show ?case using t by (subst txShiftBack.simps) simp
next
  case (Suc m)
  let ?N = "msk + 1"
  let ?th = "(t + Suc m) mod ?N"
  let ?last = "(t + Suc m + msk) mod ?N"
  have lb: "length buf = ?N" by (rule Suc.prems(2))
  have last: "?last = (t + m) mod ?N"
  proof -
    have "t + Suc m + msk = (t + m) + ?N" by simp
    then show ?thesis by (metis mod_add_self2)
  qed
  have ne: "?th \<noteq> t"
  proof
    assume "?th = t"
    then have "(t + Suc m) mod ?N = (t + 0) mod ?N" using t by simp
    from mod_add_inj [OF Suc.prems(1) _ this] show False by simp
  qed
  let ?b1 = "buf[?th := buf ! ?last]"
  have l1: "length ?b1 = ?N" using lb by simp
  have nl: "((t + m) mod ?N + msk) AND msk = (t + m + msk) mod ?N"
  proof -
    have "((t + m) mod ?N + msk) AND msk = ((t + m) mod ?N + msk) mod ?N"
      by (simp only: and_mask_mod [OF msk])
    also have "\<dots> = (t + m + msk) mod ?N" by (rule mod_add_left_eq)
    finally show ?thesis .
  qed
  have step: "txShiftBack msk t buf ?th ?last =
              txShiftBack msk t ?b1 ((t + m) mod ?N) ((t + m + msk) mod ?N)"
    using ne by (subst txShiftBack.simps) (simp only: last nl if_True not_False_eq_True simp_thms)
  from Suc.IH [of ?b1] Suc.prems(1) l1 obtain buf' where
    r: "txShiftBack msk t ?b1 ((t + m) mod ?N) ((t + m + msk) mod ?N) = Some buf'"
    and lb': "length buf' = ?N"
    and a: "ring buf' (t + 1) m = ring ?b1 t m"
    and b: "\<forall>j. m + 1 + j \<le> ?N \<longrightarrow> ring buf' (t + m + 1) j = ring ?b1 (t + m + 1) j"
    by auto
  have a1: "ring ?b1 t m = ring buf t m"
  proof -
    have "ring (buf[(t + Suc m) mod length buf := buf ! ?last]) t m = ring buf t m"
      by (rule ring_update_outside) (use Suc.prems(1) lb in simp_all)
    then show ?thesis using lb by simp
  qed
  have b1: "ring buf' (t + m + 1) 1 = ring ?b1 (t + m + 1) 1"
    using b [rule_format, of 1] Suc.prems(1) by simp
  have el: "buf' ! ((t + 1 + m) mod ?N) = buf ! ((t + m) mod ?N)"
  proof -
    have "buf' ! ((t + m + 1) mod ?N) = ?b1 ! ((t + m + 1) mod ?N)"
      using b1 lb' l1 by (simp add: ring_1)
    also have "\<dots> = buf ! ?last" using lb by simp
    also have "\<dots> = buf ! ((t + m) mod ?N)" by (simp only: last)
    finally have "buf' ! ((t + m + 1) mod ?N) = buf ! ((t + m) mod ?N)" .
    moreover have "t + 1 + m = t + m + 1" by simp
    ultimately show ?thesis by (simp only:)
  qed
  have c: "ring buf' (t + 1) (Suc m) = ring buf t (Suc m)"
    unfolding ring_Suc a a1 lb' lb el ..
  have d: "ring buf' (t + Suc m + 1) j = ring buf (t + Suc m + 1) j" if "Suc m + 1 + j \<le> ?N" for j
  proof -
    have "ring buf' (t + m + 1) (Suc j) = ring ?b1 (t + m + 1) (Suc j)"
      using b [rule_format, of "Suc j"] that by simp
    then have "ring buf' (t + m + 1 + 1) j = ring ?b1 (t + m + 1 + 1) j"
      by (simp add: ring_Cons)
    moreover have "ring (buf[(t + m + 1) mod length buf := buf ! ?last]) (t + m + 1 + 1) j =
                   ring buf (t + m + 1 + 1) j"
      by (rule ring_update_before) (use that lb in simp)
    ultimately show ?thesis using lb by simp
  qed
  show ?case
    unfolding step r using lb' c d by simp
qed


lemma txQueue_nth:
  assumes "txQueue cfg s items" "j < length items"
  shows "txBuffer s ! ((txTail s + j) mod (TXBUFFERMASK cfg + 1)) = items ! j"
    and "txHead s \<noteq> (txTail s + j) mod (TXBUFFERMASK cfg + 1)"
proof -
  let ?N = "TXBUFFERMASK cfg + 1"
  have bl: "length (txBuffer s) = ?N" and L: "length items < ?N"
    and h: "txHead s = (txTail s + length items) mod ?N"
    and r: "ring (txBuffer s) (txTail s) (length items) = items"
    using assms(1) by (simp_all add: txQueue_def)
  have "ring (txBuffer s) (txTail s) (length items) ! j =
        txBuffer s ! ((txTail s + j) mod length (txBuffer s))"
    by (rule ring_nth [OF assms(2)])
  then show "txBuffer s ! ((txTail s + j) mod ?N) = items ! j"
    using r bl by simp
  show "txHead s \<noteq> (txTail s + j) mod ?N"
  proof
    assume "txHead s = (txTail s + j) mod ?N"
    then have "(txTail s + length items) mod ?N = (txTail s + j) mod ?N" using h by simp
    from mod_add_inj [OF L _ this] assms(2) L show False by simp
  qed
qed

lemma txScan_skip:
  assumes msk: "TXBUFFERMASK cfg = 2 ^ k - 1"
    and q: "txQueue cfg s items"
    and nm: "\<forall>y\<in>set (take m items). \<not> forDevice cfg device y"
    and m: "m \<le> length items"
  shows "j \<le> m \<Longrightarrow>
         txScan cfg device s ((txTail s + j) mod (TXBUFFERMASK cfg + 1)) =
         txScan cfg device s ((txTail s + m) mod (TXBUFFERMASK cfg + 1))"
proof (induction "m - j" arbitrary: j)
  case 0
  then show ?case by simp
next
  case (Suc d)
  let ?N = "TXBUFFERMASK cfg + 1"
  have j: "j < m" "j < length items" using Suc.hyps(2) m by simp_all
  have "items ! j \<in> set (take m items)" using j by (metis in_set_conv_nth length_take min.absorb2 m nth_take)
  then have no: "\<not> forDevice cfg device (items ! j)" using nm by blast
  note nth = txQueue_nth [OF q j(2)]
  have nx: "((txTail s + j) mod ?N + 1) AND TXBUFFERMASK cfg = (txTail s + Suc j) mod ?N"
    by (simp add: and_mask_mod [OF msk] mod_Suc_eq)
  have "txScan cfg device s ((txTail s + j) mod ?N) = txScan cfg device s ((txTail s + Suc j) mod ?N)"
    using no nth by (subst txScan.simps) (simp add: forDevice_def nx del: One_nat_def)
  also have "\<dots> = txScan cfg device s ((txTail s + m) mod ?N)"
    by (rule Suc.hyps(1)) (use Suc.hyps(2) j in simp_all)
  finally show ?case .
qed

lemma txScan_none:
  assumes msk: "TXBUFFERMASK cfg = 2 ^ k - 1"
    and q: "txQueue cfg s items"
    and nm: "\<forall>y\<in>set items. \<not> forDevice cfg device y"
  shows "txScan cfg device s (txTail s) = Some (- 1, s)"
proof -
  let ?N = "TXBUFFERMASK cfg + 1"
  have t: "txTail s < ?N" and h: "txHead s = (txTail s + length items) mod ?N"
    using q by (simp_all add: txQueue_def)
  have "txScan cfg device s ((txTail s + 0) mod ?N) = txScan cfg device s ((txTail s + length items) mod ?N)"
    by (rule txScan_skip [OF msk q]) (use nm in simp_all)
  also have "\<dots> = Some (- 1, s)"
    using h by (subst txScan.simps) simp
  finally show ?thesis using t by simp
qed


lemma txScan_match:
  assumes msk: "TXBUFFERMASK cfg = 2 ^ k - 1"
    and q: "txQueue cfg s (pre @ x # post)"
    and nm: "\<forall>y\<in>set pre. \<not> forDevice cfg device y"
    and mx: "forDevice cfg device x"
  shows "\<exists>buf'. txScan cfg device s (txTail s) =
                 Some (uint (data x),
                       s\<lparr>txBuffer := buf', txTail := (txTail s + 1) mod (TXBUFFERMASK cfg + 1)\<rparr>) \<and>
               length buf' = TXBUFFERMASK cfg + 1 \<and>
               ring buf' (txTail s + 1) (length pre) = pre \<and>
               ring buf' (txTail s + 1 + length pre) (length post) = post"
proof -
  let ?N = "TXBUFFERMASK cfg + 1"
  let ?items = "pre @ x # post"
  let ?m = "length pre"
  let ?tt = "(txTail s + ?m) mod ?N"
  have bl: "length (txBuffer s) = ?N" and t: "txTail s < ?N" and L: "length ?items < ?N"
    and r: "ring (txBuffer s) (txTail s) (length ?items) = ?items"
    using q by (simp_all add: txQueue_def)
  have m: "?m < length ?items" by simp
  note nth = txQueue_nth [OF q m]
  have xi: "txBuffer s ! ?tt = x" using nth(1) by simp
  have skip: "txScan cfg device s ((txTail s + 0) mod ?N) = txScan cfg device s ?tt"
    by (rule txScan_skip [OF msk q]) (use nm in simp_all)
  have parts: "ring (txBuffer s) (txTail s) ?m = pre"
    "ring (txBuffer s) (txTail s + ?m + 1) (length post) = post"
  proof -
    have "ring (txBuffer s) (txTail s) (?m + (1 + length post)) =
          ring (txBuffer s) (txTail s) ?m @ ring (txBuffer s) (txTail s + ?m) (1 + length post)"
      by (rule ring_add)
    moreover have "ring (txBuffer s) (txTail s + ?m) (1 + length post) =
          ring (txBuffer s) (txTail s + ?m) 1 @ ring (txBuffer s) (txTail s + ?m + 1) (length post)"
      by (rule ring_add)
    ultimately have e: "ring (txBuffer s) (txTail s) ?m @
          (ring (txBuffer s) (txTail s + ?m) 1 @ ring (txBuffer s) (txTail s + ?m + 1) (length post)) =
          pre @ ([x] @ post)"
      using r by simp
    have "ring (txBuffer s) (txTail s) ?m = pre \<and>
          ring (txBuffer s) (txTail s + ?m) 1 @ ring (txBuffer s) (txTail s + ?m + 1) (length post) =
          [x] @ post"
      using e by (subst (asm) append_eq_append_conv) simp_all
    then have a: "ring (txBuffer s) (txTail s) ?m = pre"
      and b: "ring (txBuffer s) (txTail s + ?m) 1 @ ring (txBuffer s) (txTail s + ?m + 1) (length post) =
          [x] @ post" by blast+
    have "ring (txBuffer s) (txTail s + ?m) 1 = [x] \<and>
          ring (txBuffer s) (txTail s + ?m + 1) (length post) = post"
      using b by (subst (asm) append_eq_append_conv) simp_all
    then show "ring (txBuffer s) (txTail s + ?m + 1) (length post) = post" by blast
    show "ring (txBuffer s) (txTail s) ?m = pre" by (rule a)
  qed
  have tl: "(txTail s + 1) AND TXBUFFERMASK cfg = (txTail s + 1) mod ?N"
    by (rule and_mask_mod [OF msk])
  show ?thesis
  proof (cases "pre = []")
    case True
    then have tt: "?tt = txTail s" using t by simp
    have "txScan cfg device s ?tt =
            Some (uint (data x), s\<lparr>txTail := (txTail s + 1) mod ?N\<rparr>)"
      using nth(2) xi mx unfolding tt
      by (subst txScan.simps) (simp add: forDevice_def tl del: One_nat_def)
    then have "txScan cfg device s (txTail s) =
            Some (uint (data x), s\<lparr>txBuffer := txBuffer s, txTail := (txTail s + 1) mod ?N\<rparr>)"
      using skip t tt by simp
    then show ?thesis using bl parts True
      by (intro exI [of _ "txBuffer s"]) simp
  next
    case False
    then have m0: "0 < ?m" by simp
    have ne: "?tt \<noteq> txTail s"
    proof
      assume "?tt = txTail s"
      then have "(txTail s + ?m) mod ?N = (txTail s + 0) mod ?N" using t by simp
      from mod_add_inj [OF _ _ this] L m0 show False by simp
    qed
    have mN: "?m < ?N" using L by simp
    have lst: "(?tt + TXBUFFERMASK cfg) AND TXBUFFERMASK cfg = (txTail s + ?m + TXBUFFERMASK cfg) mod ?N"
    proof -
      have "(?tt + TXBUFFERMASK cfg) AND TXBUFFERMASK cfg = (?tt + TXBUFFERMASK cfg) mod ?N"
        by (rule and_mask_mod [OF msk])
      also have "\<dots> = (txTail s + ?m + TXBUFFERMASK cfg) mod ?N" by (rule mod_add_left_eq)
      finally show ?thesis .
    qed
    from txShiftBack_shift [OF msk bl t mN bl] obtain buf' where
      sh: "txShiftBack (TXBUFFERMASK cfg) (txTail s) (txBuffer s) ?tt
             ((txTail s + ?m + TXBUFFERMASK cfg) mod ?N) = Some buf'"
      and lb': "length buf' = ?N"
      and a: "ring buf' (txTail s + 1) ?m = ring (txBuffer s) (txTail s) ?m"
      and b: "\<forall>j. ?m + 1 + j \<le> ?N \<longrightarrow>
                ring buf' (txTail s + ?m + 1) j = ring (txBuffer s) (txTail s + ?m + 1) j"
      by blast
    have b': "ring buf' (txTail s + ?m + 1) (length post) = ring (txBuffer s) (txTail s + ?m + 1) (length post)"
      using b [rule_format, of "length post"] L by simp
    have "txScan cfg device s ?tt =
            Some (uint (data x), s\<lparr>txBuffer := buf', txTail := (txTail s + 1) mod ?N\<rparr>)"
      using nth(2) xi mx ne
      by (subst txScan.simps) (simp add: forDevice_def tl lst sh del: One_nat_def)
    then have "txScan cfg device s (txTail s) =
            Some (uint (data x), s\<lparr>txBuffer := buf', txTail := (txTail s + 1) mod ?N\<rparr>)"
      using skip t by simp
    moreover have "ring buf' (txTail s + 1 + ?m) (length post) = post"
      using b' parts(2) by (simp add: add.commute add.left_commute)
    ultimately show ?thesis using lb' a parts(1)
      by (intro exI [of _ buf']) simp
  qed
qed


lemma txQueue_initial: "txQueue cfg (initial cfg) []"
  by (simp add: txQueue_def initial_def ring_def)


lemma noFlow_scan:
  assumes "noFlowControlPending cfg s"
  shows "jshGetCharToTransmit cfg device s = txScan cfg device s (txTail s)"
proof (cases "DEVICE_HAS_DEVICE_STATE cfg device")
  case False
  then show ?thesis by (simp add: jshGetCharToTransmit_def)
next
  case True
  then have le: "EV_SERIAL_DEVICE_STATE_START cfg \<le> device" "device \<le> EV_SERIAL_MAX cfg"
    by (simp_all add: DEVICE_HAS_DEVICE_STATE_def)
  have "unat (device - EV_SERIAL_DEVICE_STATE_START cfg) \<le> unat (EV_SERIAL_MAX cfg - EV_SERIAL_DEVICE_STATE_START cfg)"
    using le by (simp add: unat_sub word_le_nat_alt)
  then have "TO_SERIAL_DEVICE_STATE cfg device < length (jshSerialDeviceStates s)"
    using assms by (simp add: noFlowControlPending_def TO_SERIAL_DEVICE_STATE_def)
  then have "jshSerialDeviceStates s ! TO_SERIAL_DEVICE_STATE cfg device AND SDS_XOFF_PENDING = 0"
    "jshSerialDeviceStates s ! TO_SERIAL_DEVICE_STATE cfg device AND SDS_XON_PENDING = 0"
    using assms by (simp_all add: noFlowControlPending_def list_all_length)
  then show ?thesis by (simp add: jshGetCharToTransmit_def)
qed

lemma txScan_queue:
  assumes msk: "TXBUFFERMASK cfg = 2 ^ k - 1"
    and q: "txQueue cfg s (pre @ x # post)"
    and nm: "\<forall>y\<in>set pre. \<not> forDevice cfg device y"
    and mx: "forDevice cfg device x"
  shows "\<exists>s'. txScan cfg device s (txTail s) = Some (uint (data x), s') \<and>
               txQueue cfg s' (pre @ post) \<and>
               txTail s' = (txTail s + 1) mod (TXBUFFERMASK cfg + 1) \<and>
               ring (txBuffer s') (txTail s + 1) (length pre) = pre \<and>
               jshSerialDeviceStates s' = jshSerialDeviceStates s"
proof -
  let ?N = "TXBUFFERMASK cfg + 1"
  from txScan_match [OF msk q nm mx] obtain buf' where
    sc: "txScan cfg device s (txTail s) =
           Some (uint (data x), s\<lparr>txBuffer := buf', txTail := (txTail s + 1) mod ?N\<rparr>)"
    and lb: "length buf' = ?N"
    and a: "ring buf' (txTail s + 1) (length pre) = pre"
    and b: "ring buf' (txTail s + 1 + length pre) (length post) = post"
    by blast
  let ?s' = "s\<lparr>txBuffer := buf', txTail := (txTail s + 1) mod ?N\<rparr>"
  have t: "txTail s < ?N" and L: "length (pre @ x # post) < ?N"
    and h: "txHead s = (txTail s + length (pre @ x # post)) mod ?N"
    using q by (simp_all add: txQueue_def)
  have r1: "ring buf' ((txTail s + 1) mod ?N) (length (pre @ post)) = ring buf' (txTail s + 1) (length (pre @ post))"
    using ring_mod [of buf' "txTail s + 1" "length (pre @ post)"] lb by simp
  have r2: "ring buf' (txTail s + 1) (length pre + length post) = pre @ post"
    using a b by (simp add: ring_add)
  have h': "txHead s = ((txTail s + 1) mod ?N + length (pre @ post)) mod ?N"
  proof -
    have "((txTail s + 1) mod ?N + length (pre @ post)) mod ?N = (txTail s + 1 + length (pre @ post)) mod ?N"
      by (rule mod_add_left_eq)
    then show ?thesis using h by (simp add: add.commute add.left_commute)
  qed
  have "txQueue cfg ?s' (pre @ post)"
    unfolding txQueue_def using lb L h' r1 r2 by simp
  then show ?thesis using sc a by (intro exI [of _ ?s']) simp
qed

lemma jshTransmit_queue:
  assumes msk: "TXBUFFERMASK cfg = 2 ^ k - 1"
    and q: "txQueue cfg s items"
    and room: "length items < TXBUFFERMASK cfg"
    and dev: "device \<noteq> EV_LOOPBACKA cfg" "device \<noteq> EV_LOOPBACKB cfg" "device \<noteq> EV_NONE cfg"
  shows "\<exists>s'. jshTransmit cfg device d s = Some s' \<and>
               txQueue cfg s' (items @ [\<lparr>flags = device, data = d\<rparr>]) \<and>
               jshSerialDeviceStates s' = jshSerialDeviceStates s"
proof -
  let ?N = "TXBUFFERMASK cfg + 1"
  let ?x = "\<lparr>flags = device, data = d\<rparr>"
  have bl: "length (txBuffer s) = ?N" and t: "txTail s < ?N"
    and h: "txHead s = (txTail s + length items) mod ?N"
    and r: "ring (txBuffer s) (txTail s) (length items) = items"
    using q by (simp_all add: txQueue_def)
  have hn: "(txHead s + 1) AND TXBUFFERMASK cfg = (txTail s + (length items + 1)) mod ?N"
  proof -
    have "(txHead s + 1) AND TXBUFFERMASK cfg = (txHead s + 1) mod ?N" by (rule and_mask_mod [OF msk])
    also have "\<dots> = (txTail s + length items + 1) mod ?N" unfolding h by (rule mod_add_left_eq)
    finally show ?thesis by (simp add: add.assoc)
  qed
  have nf: "(txHead s + 1) AND TXBUFFERMASK cfg \<noteq> txTail s"
  proof
    assume "(txHead s + 1) AND TXBUFFERMASK cfg = txTail s"
    then have "(txTail s + (length items + 1)) mod ?N = (txTail s + 0) mod ?N" using hn t by simp
    from mod_add_inj [OF _ _ this] room show False by simp
  qed
  let ?s' = "jshTransmitStore ((txHead s + 1) AND TXBUFFERMASK cfg) device d s"
  have tr: "jshTransmit cfg device d s = Some ?s'" using dev nf by (simp add: jshTransmit_def)
  have sel0: "txHead ?s' = (txHead s + 1) AND TXBUFFERMASK cfg"
    by (simp add: jshTransmitStore_def jshUSARTKick_def)
  have sel: "txBuffer ?s' = (txBuffer s)[txHead s := ?x]" "txTail ?s' = txTail s"
    "txHead ?s' = (txTail s + (length items + 1)) mod ?N"
    "jshSerialDeviceStates ?s' = jshSerialDeviceStates s"
    unfolding sel0 hn by (simp_all add: jshTransmitStore_def jshUSARTKick_def)
  have hlt: "txHead s < ?N" unfolding h by simp
  have "ring ((txBuffer s)[txHead s := ?x]) (txTail s) (length items + 1) =
        ring ((txBuffer s)[txHead s := ?x]) (txTail s) (length items) @
        ring ((txBuffer s)[txHead s := ?x]) (txTail s + length items) 1"
    by (rule ring_add)
  moreover have "ring ((txBuffer s)[txHead s := ?x]) (txTail s + length items) 1 = [?x]"
    using hlt bl h by (simp add: ring_def)
  moreover have "ring ((txBuffer s)[txHead s := ?x]) (txTail s) (length items) = ring (txBuffer s) (txTail s) (length items)"
  proof (rule nth_equalityI)
    show "length (ring ((txBuffer s)[txHead s := ?x]) (txTail s) (length items)) = length (ring (txBuffer s) (txTail s) (length items))"
      by (simp add: ring_def)
  next
    fix i assume "i < length (ring ((txBuffer s)[txHead s := ?x]) (txTail s) (length items))"
    then have i: "i < length items" by (simp add: ring_def)
    have "(txTail s + i) mod ?N \<noteq> txHead s"
    proof
      assume "(txTail s + i) mod ?N = txHead s"
      then have "(txTail s + i) mod ?N = (txTail s + length items) mod ?N" using h by simp
      from mod_add_inj [OF _ _ this] i room show False by simp
    qed
    then show "ring ((txBuffer s)[txHead s := ?x]) (txTail s) (length items) ! i = ring (txBuffer s) (txTail s) (length items) ! i"
      using i bl by (simp add: ring_def)
  qed
  ultimately have "ring ((txBuffer s)[txHead s := ?x]) (txTail s) (length items + 1) = items @ [?x]"
    using r by simp
  then have "txQueue cfg ?s' (items @ [?x])"
    unfolding txQueue_def sel using bl t room by simp
  then show ?thesis using tr sel(4) by (intro exI [of _ ?s']) simp
qed


lemma noFlowControlPending_cong:
  "jshSerialDeviceStates s' = jshSerialDeviceStates s \<Longrightarrow>
   noFlowControlPending cfg s' = noFlowControlPending cfg s"
  by (simp add: noFlowControlPending_def)

lemma jshGetCharToTransmit_none:
  assumes msk: "TXBUFFERMASK cfg = 2 ^ k - 1"
    and q: "txQueue cfg s items"
    and nf: "noFlowControlPending cfg s"
    and ex: "List.extract (forDevice cfg device) items = None"
  shows "jshGetCharToTransmit cfg device s = Some (- 1, s)"
proof -
  have "\<forall>y\<in>set items. \<not> forDevice cfg device y"
    using ex by (simp add: extract_None_iff)
  from txScan_none [OF msk q this] show ?thesis
    by (simp add: noFlow_scan [OF nf])
qed

lemma jshGetCharToTransmit_some:
  assumes msk: "TXBUFFERMASK cfg = 2 ^ k - 1"
    and q: "txQueue cfg s items"
    and nf: "noFlowControlPending cfg s"
    and ex: "List.extract (forDevice cfg device) items = Some (pre, x, post)"
  shows "\<exists>s'. jshGetCharToTransmit cfg device s = Some (uint (data x), s') \<and>
               txQueue cfg s' (pre @ post) \<and>
               txTail s' = (txTail s + 1) mod (TXBUFFERMASK cfg + 1) \<and>
               ring (txBuffer s') (txTail s + 1) (length pre) = pre \<and>
               noFlowControlPending cfg s'"
proof -
  from extract_SomeE [OF ex] have e: "items = pre @ x # post" "forDevice cfg device x"
    "\<forall>y\<in>set pre. \<not> forDevice cfg device y" by auto
  from txScan_queue [OF msk q [unfolded e(1)] e(3) e(2)] obtain s' where
    s': "txScan cfg device s (txTail s) = Some (uint (data x), s')"
      "txQueue cfg s' (pre @ post)"
      "txTail s' = (txTail s + 1) mod (TXBUFFERMASK cfg + 1)"
      "ring (txBuffer s') (txTail s + 1) (length pre) = pre"
      "jshSerialDeviceStates s' = jshSerialDeviceStates s"
    by blast
  have "noFlowControlPending cfg s'"
    using nf noFlowControlPending_cong [OF s'(5)] by simp
  then show ?thesis using s' by (intro exI [of _ s']) (simp add: noFlow_scan [OF nf])
qed

lemma tx_run_fifo:
  assumes msk: "TXBUFFERMASK cfg = 2 ^ k - 1"
  shows "txQueue cfg s q \<Longrightarrow> noFlowControlPending cfg s \<Longrightarrow>
         list_all (tx_call_ok cfg) cs \<Longrightarrow> tx_fits cfg cs q \<Longrightarrow>
         \<exists>s'. tx_run cfg cs s = Some (fst (txfifo_run cfg cs q), s') \<and>
              txQueue cfg s' (snd (txfifo_run cfg cs q))"
proof (induction cs arbitrary: s q)
  case Nil
  then show ?case by simp
next
  case (Cons c cs)
  show ?case
  proof (cases c)
    case (Transmit device d)
    let ?x = "\<lparr>flags = device, data = d\<rparr>"
    have room: "length q < TXBUFFERMASK cfg" and fits: "tx_fits cfg cs (q @ [?x])"
      using Cons.prems(4) Transmit by simp_all
    have dev: "device \<noteq> EV_LOOPBACKA cfg" "device \<noteq> EV_LOOPBACKB cfg" "device \<noteq> EV_NONE cfg"
      and ok: "list_all (tx_call_ok cfg) cs"
      using Cons.prems(3) Transmit by simp_all
    from jshTransmit_queue [OF msk Cons.prems(1) room dev, of d] obtain s1 where
      s1: "jshTransmit cfg device d s = Some s1" "txQueue cfg s1 (q @ [?x])"
        "jshSerialDeviceStates s1 = jshSerialDeviceStates s"
      by blast
    have nf1: "noFlowControlPending cfg s1"
      using Cons.prems(2) noFlowControlPending_cong [OF s1(3)] by simp
    from Cons.IH [OF s1(2) nf1 ok fits] show ?thesis
      using s1(1) Transmit by simp
  next
    case (GetCharToTransmit device)
    have ok: "list_all (tx_call_ok cfg) cs" using Cons.prems(3) by simp
    show ?thesis
    proof (cases "List.extract (forDevice cfg device) q")
      case None
      have fits: "tx_fits cfg cs q" using Cons.prems(4) GetCharToTransmit None by simp
      have g: "jshGetCharToTransmit cfg device s = Some (- 1, s)"
        by (rule jshGetCharToTransmit_none [OF msk Cons.prems(1) Cons.prems(2) None])
      from Cons.IH [OF Cons.prems(1) Cons.prems(2) ok fits] show ?thesis
        using g GetCharToTransmit None by auto
    next
      case (Some r)
      obtain pre x post where r: "r = (pre, x, post)" by (cases r) auto
      have ex: "List.extract (forDevice cfg device) q = Some (pre, x, post)" using Some r by simp
      have fits: "tx_fits cfg cs (pre @ post)" using Cons.prems(4) GetCharToTransmit ex by simp
      from jshGetCharToTransmit_some [OF msk Cons.prems(1) Cons.prems(2) ex] obtain s1 where
        s1: "jshGetCharToTransmit cfg device s = Some (uint (data x), s1)"
          "txQueue cfg s1 (pre @ post)" "noFlowControlPending cfg s1"
        by blast
      from Cons.IH [OF s1(2) s1(3) ok fits] show ?thesis
        using s1(1) GetCharToTransmit ex by auto
    qed
  qed
qed


lemma txQueue_prefix:
  assumes "txQueue cfg s (pre @ rest)"
  shows "ring (txBuffer s) (txTail s) (length pre) = pre"
proof -
  have r: "ring (txBuffer s) (txTail s) (length pre + length rest) = pre @ rest"
    using assms by (simp add: txQueue_def)
  have "ring (txBuffer s) (txTail s) (length pre + length rest) =
        ring (txBuffer s) (txTail s) (length pre) @ ring (txBuffer s) (txTail s + length pre) (length rest)"
    by (rule ring_add)
  then have "ring (txBuffer s) (txTail s) (length pre) @
             ring (txBuffer s) (txTail s + length pre) (length rest) = pre @ rest"
    using r by simp
  then show ?thesis by (subst (asm) append_eq_append_conv) simp_all
qed

lemma item_eta: "\<lparr>flags = flags x, data = data x\<rparr> = (x::TxBufferItem)"
  by (cases x) simp

lemma txfifo_run_transmits:
  "txfifo_run cfg (map (\<lambda>x. Transmit (flags x) (data x)) items @ cs) q =
   txfifo_run cfg cs (q @ items)"
  by (induction items arbitrary: q) (simp_all add: item_eta)

lemma tx_fits_transmits:
  "length q + length items \<le> TXBUFFERMASK cfg \<Longrightarrow> tx_fits cfg cs (q @ items) \<Longrightarrow>
   tx_fits cfg (map (\<lambda>x. Transmit (flags x) (data x)) items @ cs) q"
  by (induction items arbitrary: q) (simp_all add: item_eta)

lemma tx_fits_gets: "tx_fits cfg (replicate n (GetCharToTransmit device)) q"
  by (induction n arbitrary: q) (simp_all split: option.splits)

lemma txfifo_run_gets:
  "fst (txfifo_run cfg (replicate n (GetCharToTransmit device)) q) =
   map (\<lambda>x. uint (data x)) (take n (filter (forDevice cfg device) q)) @
   replicate (n - length (filter (forDevice cfg device) q)) (- 1)"
proof (induction n arbitrary: q)
  case 0
  then show ?case by simp
next
  case (Suc n)
  show ?case
  proof (cases "List.extract (forDevice cfg device) q")
    case None
    then have "filter (forDevice cfg device) q = []"
      by (simp add: extract_None_iff filter_empty_conv)
    then show ?thesis using None Suc.IH [of q] by simp
  next
    case (Some r)
    obtain pre x post where r: "r = (pre, x, post)" by (cases r) auto
    from extract_SomeE [OF Some [unfolded r]] have e: "q = pre @ x # post" "forDevice cfg device x"
      "\<forall>y\<in>set pre. \<not> forDevice cfg device y" by auto
    have f1: "filter (forDevice cfg device) pre = []" using e(3) by (simp add: filter_empty_conv)
    have "filter (forDevice cfg device) q = x # filter (forDevice cfg device) post"
      "filter (forDevice cfg device) (pre @ post) = filter (forDevice cfg device) post"
      using e(2) f1 unfolding e(1) by simp_all
    then show ?thesis using Some r Suc.IH [of "pre @ post"] by simp
  qed
qed

lemma transmit_then_get:
  assumes msk: "TXBUFFERMASK cfg = 2 ^ k - 1"
    and q: "txQueue cfg s q"
    and nf: "noFlowControlPending cfg s"
    and ok: "list_all (\<lambda>x. tx_call_ok cfg (Transmit (flags x) (data x))) items"
    and fits: "length q + length items \<le> TXBUFFERMASK cfg"
  shows "map_option fst
           (tx_run cfg (map (\<lambda>x. Transmit (flags x) (data x)) items @
                        replicate n (GetCharToTransmit device)) s) =
         Some (map (\<lambda>x. uint (data x)) (take n (filter (forDevice cfg device) (q @ items))) @
               replicate (n - length (filter (forDevice cfg device) (q @ items))) (- 1))"
proof -
  let ?cs = "map (\<lambda>x. Transmit (flags x) (data x)) items @ replicate n (GetCharToTransmit device)"
  have ok': "list_all (tx_call_ok cfg) ?cs"
    using ok by (auto simp add: list_all_iff)
  have fits': "tx_fits cfg ?cs q"
    by (rule tx_fits_transmits [OF fits tx_fits_gets])
  from tx_run_fifo [OF msk q nf ok' fits'] obtain s' where
    "tx_run cfg ?cs s = Some (fst (txfifo_run cfg ?cs q), s')" by blast
  then show ?thesis by (simp add: txfifo_run_transmits txfifo_run_gets)
qed

lemma txQueue_queued: "txQueue board queued [\<lparr>flags = 21, data = 0x41\<rparr>, \<lparr>flags = 20, data = 0x42\<rparr>]"
  by (simp add: txQueue_def queued_def initial_def board_def board0_def ring_def upt_rec)

lemma noFlowControlPending_queued: "noFlowControlPending board queued"
  by (simp add: noFlowControlPending_def queued_def initial_def board_def board0_def
      JSHSERIALDEVICESTATUSES_def SDS_NONE_def list_all_length)

text \<open>
  Claim C5 as it is written fails in its second part: the items in front of the one
  returned are not moved toward the tail. With an item for device 21 in slot 0 (the
  tail) and an item for device 20 in slot 1, jshGetCharToTransmit(20) returns 0x42,
  copies the item for device 21 from slot 0 into slot 1, the slot next toward the head,
  and advances txTail to 1; no slot on the other side of the tail is written.
\<close>

theorem earlier_items_shift_counterexample:
  "tx_run board [Transmit 21 0x41, Transmit 20 0x42] (initial board) = Some ([], queued) \<and>
   txTail queued = 0 \<and> txHead queued = 2 \<and>
   txBuffer queued =
     [\<lparr>flags = 21, data = 0x41\<rparr>, \<lparr>flags = 20, data = 0x42\<rparr>,
      \<lparr>flags = 0, data = 0\<rparr>, \<lparr>flags = 0, data = 0\<rparr>, \<lparr>flags = 0, data = 0\<rparr>,
      \<lparr>flags = 0, data = 0\<rparr>, \<lparr>flags = 0, data = 0\<rparr>, \<lparr>flags = 0, data = 0\<rparr>] \<and>
   map_option fst (jshGetCharToTransmit board 20 queued) = Some 0x42 \<and>
   map_option (txTail \<circ> snd) (jshGetCharToTransmit board 20 queued) = Some 1 \<and>
   map_option (txHead \<circ> snd) (jshGetCharToTransmit board 20 queued) = Some 2 \<and>
   map_option (txBuffer \<circ> snd) (jshGetCharToTransmit board 20 queued) =
     Some [\<lparr>flags = 21, data = 0x41\<rparr>, \<lparr>flags = 21, data = 0x41\<rparr>,
           \<lparr>flags = 0, data = 0\<rparr>, \<lparr>flags = 0, data = 0\<rparr>, \<lparr>flags = 0, data = 0\<rparr>,
           \<lparr>flags = 0, data = 0\<rparr>, \<lparr>flags = 0, data = 0\<rparr>, \<lparr>flags = 0, data = 0\<rparr>]"
  by code_simp

text \<open>
  Claim C5, amended. Let the transmit buffer hold the items \<open>q\<close>, with no XOFF or XON
  byte waiting, and let \<open>items\<close> be transmitted with jshTransmit, for devices that go
  through the buffer and without filling it. Then \<open>n\<close> calls of
  jshGetCharToTransmit(device) return the bytes of that device among \<open>q @ items\<close> in the
  order in which they were transmitted, whatever items of other devices lie between
  them, and -1 once there are no more. When the first item \<open>x\<close> of the device has the
  items \<open>pre\<close> in front of it, the call returns the byte of \<open>x\<close>, the items \<open>pre\<close>, which
  were in the slots from txTail on, are in the slots from txTail + 1 on, in the same
  order (each one slot toward the head, into the place \<open>x\<close> leaves), txTail has advanced
  by one, and the buffer holds \<open>pre @ post\<close>.
\<close>

theorem jshGetCharToTransmit_fifo:
  assumes "TXBUFFERMASK cfg = 2 ^ k - 1"
    and "txQueue cfg s q"
    and "noFlowControlPending cfg s"
    and "list_all (\<lambda>x. tx_call_ok cfg (Transmit (flags x) (data x))) items"
    and "length q + length items \<le> TXBUFFERMASK cfg"
  shows "map_option fst
           (tx_run cfg (map (\<lambda>x. Transmit (flags x) (data x)) items @
                        replicate n (GetCharToTransmit device)) s) =
         Some (map (\<lambda>x. uint (data x)) (take n (filter (forDevice cfg device) (q @ items))) @
               replicate (n - length (filter (forDevice cfg device) (q @ items))) (- 1)) \<and>
         (List.extract (forDevice cfg device) q = Some (pre, x, post) \<longrightarrow>
            (\<exists>s'. jshGetCharToTransmit cfg device s = Some (uint (data x), s') \<and>
                  ring (txBuffer s) (txTail s) (length pre) = pre \<and>
                  ring (txBuffer s') (txTail s + 1) (length pre) = pre \<and>
                  txTail s' = (txTail s + 1) mod (TXBUFFERMASK cfg + 1) \<and>
                  txQueue cfg s' (pre @ post)))"
proof (intro conjI impI)
  show "map_option fst
           (tx_run cfg (map (\<lambda>x. Transmit (flags x) (data x)) items @
                        replicate n (GetCharToTransmit device)) s) =
         Some (map (\<lambda>x. uint (data x)) (take n (filter (forDevice cfg device) (q @ items))) @
               replicate (n - length (filter (forDevice cfg device) (q @ items))) (- 1))"
    using assms by (rule transmit_then_get)
next
  assume ex: "List.extract (forDevice cfg device) q = Some (pre, x, post)"
  from extract_SomeE [OF ex] have e: "q = pre @ x # post" by simp
  have p: "ring (txBuffer s) (txTail s) (length pre) = pre"
    by (rule txQueue_prefix [OF assms(2) [unfolded e]])
  from jshGetCharToTransmit_some [OF assms(1) assms(2) assms(3) ex] obtain s' where
    "jshGetCharToTransmit cfg device s = Some (uint (data x), s')"
    "txQueue cfg s' (pre @ post)"
    "txTail s' = (txTail s + 1) mod (TXBUFFERMASK cfg + 1)"
    "ring (txBuffer s') (txTail s + 1) (length pre) = pre"
    by blast
  then show "\<exists>s'. jshGetCharToTransmit cfg device s = Some (uint (data x), s') \<and>
                  ring (txBuffer s) (txTail s) (length pre) = pre \<and>
                  ring (txBuffer s') (txTail s + 1) (length pre) = pre \<and>
                  txTail s' = (txTail s + 1) mod (TXBUFFERMASK cfg + 1) \<and>
                  txQueue cfg s' (pre @ post)"
    using p by (intro exI [of _ s']) simp
qed

theorem jshGetCharToTransmit_fifo_witness:
  "map_option fst
     (tx_run board [Transmit 20 0x43, Transmit 21 0x44,
                    GetCharToTransmit 20, GetCharToTransmit 20, GetCharToTransmit 20] queued) =
     Some [0x42, 0x43, - 1] \<and>
   (\<exists>s'. jshGetCharToTransmit board 20 queued = Some (0x42, s') \<and>
         ring (txBuffer queued) 0 1 = [\<lparr>flags = 21, data = 0x41\<rparr>] \<and>
         ring (txBuffer s') 1 1 = [\<lparr>flags = 21, data = 0x41\<rparr>] \<and>
         txTail s' = 1 \<and>
         txQueue board s' [\<lparr>flags = 21, data = 0x41\<rparr>])"
proof -
  have ok: "list_all (\<lambda>x. tx_call_ok board (Transmit (flags x) (data x)))
              [\<lparr>flags = 20, data = 0x43\<rparr>, \<lparr>flags = 21, data = 0x44\<rparr>]"
    by (simp add: board_def board0_def)
  have fits: "length [\<lparr>flags = 21, data = 0x41\<rparr>, \<lparr>flags = 20, data = 0x42 :: 8 word\<rparr>] +
              length [\<lparr>flags = 20, data = 0x43\<rparr>, \<lparr>flags = 21, data = 0x44 :: 8 word\<rparr>]
              \<le> TXBUFFERMASK board"
    by (simp add: board_def board0_def)
  have ex: "List.extract (forDevice board 20)
              [\<lparr>flags = 21, data = 0x41\<rparr>, \<lparr>flags = 20, data = 0x42\<rparr>] =
            Some ([\<lparr>flags = 21, data = 0x41\<rparr>], \<lparr>flags = 20, data = 0x42\<rparr>, [])"
    by code_simp
  have f: "filter (forDevice board 20)
             ([\<lparr>flags = 21, data = 0x41\<rparr>, \<lparr>flags = 20, data = 0x42\<rparr>] @
              [\<lparr>flags = 20, data = 0x43\<rparr>, \<lparr>flags = 21, data = 0x44\<rparr>]) =
           [\<lparr>flags = 20, data = 0x42\<rparr>, \<lparr>flags = 20, data = 0x43\<rparr>]"
    by code_simp
  have a: "map (\<lambda>x. Transmit (flags x) (data x))
             [\<lparr>flags = 20, data = 0x43\<rparr>, \<lparr>flags = 21, data = 0x44\<rparr>] @
           replicate 3 (GetCharToTransmit 20) =
           [Transmit 20 0x43, Transmit 21 0x44,
            GetCharToTransmit 20, GetCharToTransmit 20, GetCharToTransmit 20]"
    by (simp add: eval_nat_numeral)
  have b: "map (\<lambda>x. uint (data x))
             (take 3 [\<lparr>flags = 20, data = 0x42\<rparr>, \<lparr>flags = 20 :: 8 word, data = 0x43 :: 8 word\<rparr>]) @
           replicate (3 - length [\<lparr>flags = 20, data = 0x42\<rparr>, \<lparr>flags = 20 :: 8 word, data = 0x43 :: 8 word\<rparr>]) (- 1) =
           [0x42, 0x43, - 1]"
    by simp
  have t: "txTail queued = 0" "TXBUFFERMASK board = 7"
    by (simp_all add: queued_def initial_def board_def board0_def)
  note th = jshGetCharToTransmit_fifo [OF board_consts(4) txQueue_queued noFlowControlPending_queued
        ok fits, of 3 20 "[\<lparr>flags = 21, data = 0x41\<rparr>]" "\<lparr>flags = 20, data = 0x42\<rparr>" "[]"]
  have c1: "map_option fst
     (tx_run board [Transmit 20 0x43, Transmit 21 0x44,
                    GetCharToTransmit 20, GetCharToTransmit 20, GetCharToTransmit 20] queued) =
     Some [0x42, 0x43, - 1]"
    using th [THEN conjunct1] unfolding f a b .
  have c2: "\<exists>s'. jshGetCharToTransmit board 20 queued = Some (0x42, s') \<and>
         ring (txBuffer queued) 0 1 = [\<lparr>flags = 21, data = 0x41\<rparr>] \<and>
         ring (txBuffer s') 1 1 = [\<lparr>flags = 21, data = 0x41\<rparr>] \<and>
         txTail s' = 1 \<and>
         txQueue board s' [\<lparr>flags = 21, data = 0x41\<rparr>]"
    using th [THEN conjunct2, unfolded ex, THEN mp, OF refl] by (simp add: t)
  show ?thesis using c1 c2 by (rule conjI)
qed

section \<open>The event buffer: taking out the first event of a type\<close>

lemma pred_mask:
  fixes msk a :: nat
  assumes msk: "msk = 2 ^ k - 1"
  shows "((a + 1) mod (msk + 1) + msk) AND msk = a mod (msk + 1)"
proof -
  have "((a + 1) mod (msk + 1) + msk) AND msk = ((a + 1) mod (msk + 1) + msk) mod (msk + 1)"
    by (rule and_mask_mod [OF msk])
  also have "\<dots> = ((a + 1) mod (msk + 1) + ((msk + 1) - 1)) mod (msk + 1)" by simp
  also have "\<dots> = a mod (msk + 1)" by (rule pred_mod) simp
  finally show ?thesis .
qed

lemma ioShiftDown_shift:
  assumes msk: "msk = 2 ^ k - 1" and t: "t < msk + 1"
  shows "n + 1 + g \<le> msk + 1 \<Longrightarrow> length buf = msk + 1 \<Longrightarrow>
         \<exists>buf'. ioShiftDown msk t buf ((t + g + n) mod (msk + 1)) ((t + n) mod (msk + 1)) =
                  Some (buf', (t + g) mod (msk + 1)) \<and>
               length buf' = msk + 1 \<and>
               ring buf' (t + g) (n + 1) = ring buf t (n + 1) \<and>
               (\<forall>j. n + 1 + g + j \<le> msk + 1 \<longrightarrow>
                    ring buf' (t + g + n + 1) j = ring buf (t + g + n + 1) j)"
proof (induction n arbitrary: buf)
  case 0
  let ?N = "msk + 1"
  have lb: "length buf = ?N" by (rule 0(2))
  let ?b1 = "buf[(t + g) mod ?N := buf ! t]"
  have r: "ioShiftDown msk t buf ((t + g + 0) mod ?N) ((t + 0) mod ?N) = Some (?b1, (t + g) mod ?N)"
    using t by (subst ioShiftDown.simps) simp
  have a: "ring ?b1 (t + g) (0 + 1) = ring buf t (0 + 1)"
    using lb t by (simp add: ring_1)
  have b: "ring ?b1 (t + g + 0 + 1) j = ring buf (t + g + 0 + 1) j" if "0 + 1 + g + j \<le> ?N" for j
  proof -
    have "ring (buf[(t + g) mod length buf := buf ! t]) (t + g + 1) j = ring buf (t + g + 1) j"
      by (rule ring_update_before) (use that lb in simp)
    then show ?thesis using lb by simp
  qed
  show ?case unfolding r using lb a b by simp
next
  case (Suc n)
  let ?N = "msk + 1"
  let ?src = "(t + Suc n) mod ?N"
  let ?dst = "(t + g + Suc n) mod ?N"
  have lb: "length buf = ?N" by (rule Suc.prems(2))
  have bound: "n + 1 + g \<le> ?N" "Suc n < ?N" "g + Suc n < ?N" using Suc.prems(1) by simp_all
  have ne: "?src \<noteq> t"
  proof
    assume "?src = t"
    then have "(t + Suc n) mod ?N = (t + 0) mod ?N" using t by simp
    from mod_add_inj [OF bound(2) _ this] show False by simp
  qed
  let ?b1 = "buf[?dst := buf ! ?src]"
  have l1: "length ?b1 = ?N" using lb by simp
  have ps: "(?src + msk) AND msk = (t + n) mod ?N"
    using pred_mask [OF msk, of "t + n"] by simp
  have pd: "(?dst + msk) AND msk = (t + g + n) mod ?N"
    using pred_mask [OF msk, of "t + g + n"] by simp
  have step: "ioShiftDown msk t buf ?dst ?src =
              ioShiftDown msk t ?b1 ((t + g + n) mod ?N) ((t + n) mod ?N)"
    using ne by (subst ioShiftDown.simps) (simp only: ps pd if_False)
  from Suc.IH [of ?b1, OF bound(1) l1] obtain buf' where
    r: "ioShiftDown msk t ?b1 ((t + g + n) mod ?N) ((t + n) mod ?N) = Some (buf', (t + g) mod ?N)"
    and lb': "length buf' = ?N"
    and a: "ring buf' (t + g) (n + 1) = ring ?b1 t (n + 1)"
    and b: "\<forall>j. n + 1 + g + j \<le> ?N \<longrightarrow> ring buf' (t + g + n + 1) j = ring ?b1 (t + g + n + 1) j"
    by auto
  have a1: "ring ?b1 t (n + 1) = ring buf t (n + 1)"
  proof -
    have "ring (buf[(t + (g + Suc n)) mod length buf := buf ! ?src]) t (n + 1) = ring buf t (n + 1)"
      by (rule ring_update_outside) (use bound lb in simp_all)
    then show ?thesis using lb by (simp add: add.assoc)
  qed
  have b1: "ring buf' (t + g + n + 1) 1 = ring ?b1 (t + g + n + 1) 1"
    using b [rule_format, of 1] Suc.prems(1) by simp
  have el: "buf' ! ((t + g + Suc n) mod ?N) = buf ! ((t + Suc n) mod ?N)"
  proof -
    have "buf' ! ((t + g + n + 1) mod ?N) = ?b1 ! ((t + g + n + 1) mod ?N)"
      using b1 lb' l1 by (simp add: ring_1)
    also have "\<dots> = buf ! ?src" using lb by simp
    finally show ?thesis by simp
  qed
  have c: "ring buf' (t + g) (Suc n + 1) = ring buf t (Suc n + 1)"
  proof -
    have "ring buf' (t + g) (Suc (n + 1)) = ring buf' (t + g) (n + 1) @ [buf' ! ((t + g + (n + 1)) mod length buf')]"
      by (rule ring_Suc)
    moreover have "ring buf t (Suc (n + 1)) = ring buf t (n + 1) @ [buf ! ((t + (n + 1)) mod length buf)]"
      by (rule ring_Suc)
    ultimately show ?thesis using a a1 el lb lb' by simp
  qed
  have d: "ring buf' (t + g + Suc n + 1) j = ring buf (t + g + Suc n + 1) j" if "Suc n + 1 + g + j \<le> ?N" for j
  proof -
    have "ring buf' (t + g + n + 1) (Suc j) = ring ?b1 (t + g + n + 1) (Suc j)"
      using b [rule_format, of "Suc j"] that by simp
    then have "ring buf' (t + g + n + 1 + 1) j = ring ?b1 (t + g + n + 1 + 1) j"
      by (simp add: ring_Cons)
    moreover have "ring (buf[(t + g + n + 1) mod length buf := buf ! ?src]) (t + g + n + 1 + 1) j =
                   ring buf (t + g + n + 1 + 1) j"
      by (rule ring_update_before) (use that lb in simp)
    ultimately show ?thesis using lb by simp
  qed
  show ?case
    unfolding step r using lb' c d by simp
qed


lemma ring_mod_add: "ring buf (a mod length buf + c) n = ring buf (a + c) n"
proof -
  have "ring buf ((a mod length buf + c) mod length buf) n = ring buf (a mod length buf + c) n"
    by (rule ring_mod)
  moreover have "ring buf ((a + c) mod length buf) n = ring buf (a + c) n" by (rule ring_mod)
  moreover have "(a mod length buf + c) mod length buf = (a + c) mod length buf"
    by (rule mod_add_left_eq)
  ultimately show ?thesis by simp
qed

lemma ioQueue_at:
  assumes q: "ioQueue cfg s (pre @ (evt, d) # post)"
    and P: "P = length (concat (map encodeEvent pre))"
    and Q: "Q = length (concat (map encodeEvent post))"
  shows "unat (ioBuffer s ! ((ioTail s + P) mod (IOBUFFERMASK cfg + 1))) = length d"
    and "ioBuffer s ! ((ioTail s + P + 1) mod (IOBUFFERMASK cfg + 1)) = evt"
    and "ring (ioBuffer s) (ioTail s + P + 2) (length d) = d"
    and "ring (ioBuffer s) (ioTail s) P = concat (map encodeEvent pre)"
    and "ring (ioBuffer s) (ioTail s + P + (length d + 2)) Q = concat (map encodeEvent post)"
    and "ioHead s \<noteq> (ioTail s + P) mod (IOBUFFERMASK cfg + 1)"
    and "P + (length d + 2) + Q < IOBUFFERMASK cfg + 1"
proof -
  let ?N = "IOBUFFERMASK cfg + 1"
  let ?pre = "concat (map encodeEvent pre)"
  let ?post = "concat (map encodeEvent post)"
  have cc: "concat (map encodeEvent (pre @ (evt, d) # post)) = ?pre @ (encodeEvent (evt, d) @ ?post)"
    by simp
  have bl: "length (ioBuffer s) = ?N" and t: "ioTail s < ?N"
    and u: "length (?pre @ (encodeEvent (evt, d) @ ?post)) < ?N"
    and h: "ioHead s = (ioTail s + length (?pre @ (encodeEvent (evt, d) @ ?post))) mod ?N"
    and r: "ring (ioBuffer s) (ioTail s) (length (?pre @ (encodeEvent (evt, d) @ ?post))) =
              ?pre @ (encodeEvent (evt, d) @ ?post)"
    and ld: "length d < 256"
    using q unfolding ioQueue_def cc by simp_all
  show tot: "P + (length d + 2) + Q < ?N" using u P Q by simp
  have "ring (ioBuffer s) (ioTail s) (P + length (encodeEvent (evt, d) @ ?post)) =
        ring (ioBuffer s) (ioTail s) P @ ring (ioBuffer s) (ioTail s + P) (length (encodeEvent (evt, d) @ ?post))"
    by (rule ring_add)
  then have "ring (ioBuffer s) (ioTail s) P @
             ring (ioBuffer s) (ioTail s + P) (length (encodeEvent (evt, d) @ ?post)) =
             ?pre @ (encodeEvent (evt, d) @ ?post)"
    using r P by simp
  then have "ring (ioBuffer s) (ioTail s) P = ?pre \<and>
             ring (ioBuffer s) (ioTail s + P) (length (encodeEvent (evt, d) @ ?post)) =
             encodeEvent (evt, d) @ ?post"
    by (subst (asm) append_eq_append_conv) (simp_all add: P)
  then have a: "ring (ioBuffer s) (ioTail s) P = ?pre"
    and b: "ring (ioBuffer s) (ioTail s + P) (length (encodeEvent (evt, d) @ ?post)) =
             encodeEvent (evt, d) @ ?post"
    by blast+
  show "ring (ioBuffer s) (ioTail s) P = ?pre" by (rule a)
  let ?i = "(ioTail s + P) mod ?N"
  have "ring (ioBuffer s) ((ioTail s + P) mod length (ioBuffer s)) (length (encodeEvent (evt, d) @ ?post)) =
        ring (ioBuffer s) (ioTail s + P) (length (encodeEvent (evt, d) @ ?post))"
    by (rule ring_mod)
  then have b': "ring (ioBuffer s) ?i (length (encodeEvent (evt, d) @ ?post)) = encodeEvent (evt, d) @ ?post"
    using b bl by simp
  have bl0: "0 < length (ioBuffer s)" and i: "?i < length (ioBuffer s)" using bl by simp_all
  note dec = ring_decode_first [OF bl0 i b']
  show "unat (ioBuffer s ! ?i) = length d"
    unfolding dec(1) using ld by (simp add: unat_of_nat)
  have "(?i + 1) mod ?N = (ioTail s + P + 1) mod ?N" by (rule mod_add_left_eq)
  then show "ioBuffer s ! ((ioTail s + P + 1) mod ?N) = evt" using dec(2) bl by simp
  have "ring (ioBuffer s) ((ioTail s + P) mod length (ioBuffer s) + 2) (length d) =
        ring (ioBuffer s) ((ioTail s + P) + 2) (length d)"
    by (rule ring_mod_add)
  then show "ring (ioBuffer s) (ioTail s + P + 2) (length d) = d" using dec(3) bl by simp
  have "ring (ioBuffer s) ((ioTail s + P) mod length (ioBuffer s) + (length d + 2)) (length ?post) =
        ring (ioBuffer s) ((ioTail s + P) + (length d + 2)) (length ?post)"
    by (rule ring_mod_add)
  then show "ring (ioBuffer s) (ioTail s + P + (length d + 2)) Q = ?post" using dec(4) bl Q by simp
  show "ioHead s \<noteq> ?i"
  proof
    assume "ioHead s = ?i"
    then have "(ioTail s + (P + (length d + 2) + Q)) mod ?N = (ioTail s + P) mod ?N"
      using h P Q by (simp add: add.assoc)
    from mod_add_inj [OF _ _ this] tot show False by simp
  qed
qed


lemma ioScanType_skip:
  assumes msk: "IOBUFFERMASK cfg = 2 ^ k - 1"
  shows "ioQueue cfg s (pre @ rest) \<Longrightarrow>
         \<forall>e\<in>set pre. IOEVENTFLAGS_GETTYPE cfg (fst e) \<noteq> eventType \<Longrightarrow>
         ioScanType cfg eventType s (ioTail s) =
         ioScanType cfg eventType s
           ((ioTail s + length (concat (map encodeEvent pre))) mod (IOBUFFERMASK cfg + 1))"
proof (induction pre arbitrary: rest rule: rev_induct)
  case Nil
  then have "ioTail s < IOBUFFERMASK cfg + 1" by (simp add: ioQueue_def)
  then show ?case by simp
next
  case (snoc e pre)
  let ?N = "IOBUFFERMASK cfg + 1"
  let ?P = "length (concat (map encodeEvent pre))"
  let ?i = "(ioTail s + ?P) mod ?N"
  obtain evt d where e: "e = (evt, d)" by (cases e) auto
  have q: "ioQueue cfg s (pre @ (evt, d) # rest)" using snoc.prems(1) e by simp
  have nm: "\<forall>e\<in>set pre. IOEVENTFLAGS_GETTYPE cfg (fst e) \<noteq> eventType"
    and ne: "IOEVENTFLAGS_GETTYPE cfg evt \<noteq> eventType"
    using snoc.prems(2) e by simp_all
  have ih: "ioScanType cfg eventType s (ioTail s) = ioScanType cfg eventType s ?i"
    by (rule snoc.IH [OF q nm])
  note at = ioQueue_at [OF q refl refl]
  have i1: "(?i + 1) AND IOBUFFERMASK cfg = (ioTail s + ?P + 1) mod ?N"
  proof -
    have "(?i + 1) AND IOBUFFERMASK cfg = (?i + 1) mod ?N" by (rule and_mask_mod [OF msk])
    also have "\<dots> = (ioTail s + ?P + 1) mod ?N" by (rule mod_add_left_eq)
    finally show ?thesis .
  qed
  have nx: "(?i + length d + 2) AND IOBUFFERMASK cfg =
            (ioTail s + length (concat (map encodeEvent (pre @ [e])))) mod ?N"
  proof -
    have "(?i + length d + 2) AND IOBUFFERMASK cfg = (?i + (length d + 2)) mod ?N"
      using and_mask_mod [OF msk, of "?i + length d + 2"] by (simp add: add.assoc)
    also have "\<dots> = (ioTail s + ?P + (length d + 2)) mod ?N" by (rule mod_add_left_eq)
    also have "ioTail s + ?P + (length d + 2) = ioTail s + length (concat (map encodeEvent (pre @ [e])))"
      using e by simp
    finally show ?thesis .
  qed
  have "ioScanType cfg eventType s ?i =
        ioScanType cfg eventType s ((?i + length d + 2) AND IOBUFFERMASK cfg)"
    using at(6) ne by (subst ioScanType.simps) (simp only: i1 at(1) at(2) if_True if_False not_False_eq_True simp_thms)
  then show ?case unfolding ih nx .
qed

lemma ioScanType_match:
  assumes msk: "IOBUFFERMASK cfg = 2 ^ k - 1"
    and q: "ioQueue cfg s (pre @ (evt, d) # post)"
    and pre: "pre \<noteq> []"
    and nm: "\<forall>e\<in>set pre. IOEVENTFLAGS_GETTYPE cfg (fst e) \<noteq> eventType"
    and mt: "IOEVENTFLAGS_GETTYPE cfg evt = eventType"
  shows "\<exists>buf'. jshPopIOEventOfType cfg eventType s =
           Some (evt, Some d,
                 s\<lparr>ioBuffer := buf',
                   ioTail := (ioTail s + (length d + 2)) mod (IOBUFFERMASK cfg + 1),
                   ioLastHead := ioHead s\<rparr>) \<and>
           ioQueue cfg
             (s\<lparr>ioBuffer := buf',
                ioTail := (ioTail s + (length d + 2)) mod (IOBUFFERMASK cfg + 1),
                ioLastHead := ioHead s\<rparr>) (pre @ post)"
proof -
  let ?N = "IOBUFFERMASK cfg + 1"
  let ?P = "length (concat (map encodeEvent pre))"
  let ?Q = "length (concat (map encodeEvent post))"
  let ?g = "length d + 2"
  let ?i = "(ioTail s + ?P) mod ?N"
  have cc: "concat (map encodeEvent (pre @ (evt, d) # post)) =
            concat (map encodeEvent pre) @ (encodeEvent (evt, d) @ concat (map encodeEvent post))"
    by simp
  have bl: "length (ioBuffer s) = ?N" and t: "ioTail s < ?N"
    and h: "ioHead s = (ioTail s + (?P + (?g + ?Q))) mod ?N"
    and la: "list_all (\<lambda>e. length (snd e) < 256) (pre @ post)"
    using q unfolding ioQueue_def cc by simp_all
  note at = ioQueue_at [OF q refl refl]
  have P2: "2 \<le> ?P"
  proof -
    obtain e es where "pre = e # es" using pre by (cases pre) auto
    then show ?thesis by (cases e) simp
  qed
  then obtain n where n: "?P = n + 1" by (metis Suc_eq_plus1 add_leD2 le_add_diff_inverse2 numeral_2_eq_2 plus_1_eq_Suc)
  have skip: "ioScanType cfg eventType s (ioTail s) = ioScanType cfg eventType s ?i"
    by (rule ioScanType_skip [OF msk q nm])
  have i1: "(?i + 1) AND IOBUFFERMASK cfg = (ioTail s + ?P + 1) mod ?N"
  proof -
    have "(?i + 1) AND IOBUFFERMASK cfg = (?i + 1) mod ?N" by (rule and_mask_mod [OF msk])
    also have "\<dots> = (ioTail s + ?P + 1) mod ?N" by (rule mod_add_left_eq)
    finally show ?thesis .
  qed
  have i2: "((ioTail s + ?P + 1) mod ?N + 1) AND IOBUFFERMASK cfg = (ioTail s + ?P + 2) mod ?N"
  proof -
    have "((ioTail s + ?P + 1) mod ?N + 1) AND IOBUFFERMASK cfg = ((ioTail s + ?P + 1) mod ?N + 1) mod ?N"
      by (rule and_mask_mod [OF msk])
    also have "\<dots> = (ioTail s + ?P + 1 + 1) mod ?N" by (rule mod_add_left_eq)
    finally show ?thesis by (simp add: add.assoc)
  qed
  have dst: "(?i + length d + 1) AND IOBUFFERMASK cfg = (ioTail s + ?g + n) mod ?N"
  proof -
    have "(?i + length d + 1) AND IOBUFFERMASK cfg = (?i + (length d + 1)) mod ?N"
      using and_mask_mod [OF msk, of "?i + length d + 1"] by (simp add: add.assoc)
    also have "\<dots> = (ioTail s + ?P + (length d + 1)) mod ?N" by (rule mod_add_left_eq)
    also have "ioTail s + ?P + (length d + 1) = ioTail s + ?g + n" using n by simp
    finally show ?thesis .
  qed
  have src: "(?i + IOBUFFERMASK cfg) AND IOBUFFERMASK cfg = (ioTail s + n) mod ?N"
    using pred_mask [OF msk, of "ioTail s + n"] n by (simp add: add.assoc)
  have fit: "n + 1 + ?g \<le> ?N" using at(7) n by simp
  from ioShiftDown_shift [OF msk t fit bl] obtain buf' where
    sh: "ioShiftDown (IOBUFFERMASK cfg) (ioTail s) (ioBuffer s)
           ((ioTail s + ?g + n) mod ?N) ((ioTail s + n) mod ?N) = Some (buf', (ioTail s + ?g) mod ?N)"
    and lb': "length buf' = ?N"
    and a: "ring buf' (ioTail s + ?g) (n + 1) = ring (ioBuffer s) (ioTail s) (n + 1)"
    and b: "\<forall>j. n + 1 + ?g + j \<le> ?N \<longrightarrow>
              ring buf' (ioTail s + ?g + n + 1) j = ring (ioBuffer s) (ioTail s + ?g + n + 1) j"
    by blast
  have co: "ioCopyOut (IOBUFFERMASK cfg) (ioBuffer s) (length d) ((ioTail s + ?P + 2) mod ?N) =
            (ring (ioBuffer s) ((ioTail s + ?P + 2) mod ?N) (length d),
             ((ioTail s + ?P + 2) mod ?N + length d) mod ?N)"
    by (rule ioCopyOut_eq [OF msk]) (use bl in simp_all)
  have "ring (ioBuffer s) ((ioTail s + ?P + 2) mod length (ioBuffer s)) (length d) =
        ring (ioBuffer s) (ioTail s + ?P + 2) (length d)"
    by (rule ring_mod)
  then have out: "fst (ioCopyOut (IOBUFFERMASK cfg) (ioBuffer s) (length d) ((ioTail s + ?P + 2) mod ?N)) = d"
    unfolding co using at(3) bl by simp
  let ?s' = "s\<lparr>ioBuffer := buf', ioTail := (ioTail s + ?g) mod ?N, ioLastHead := ioHead s\<rparr>"
  have "ioScanType cfg eventType s ?i = Some (evt, Some d, ?s')"
    using at(6) mt
    by (subst ioScanType.simps)
       (simp only: i1 i2 at(1) at(2) dst src sh out if_True not_False_eq_True simp_thms
          option.case prod.case)
  then have res: "jshPopIOEventOfType cfg eventType s = Some (evt, Some d, ?s')"
    unfolding jshPopIOEventOfType_def skip .
  have r1: "ring buf' (ioTail s + ?g) ?P = concat (map encodeEvent pre)"
    using a at(4) n by simp
  have bq: "ring buf' (ioTail s + ?g + n + 1) ?Q = ring (ioBuffer s) (ioTail s + ?g + n + 1) ?Q"
    using b [rule_format, of ?Q] at(7) n by simp
  have e1: "ioTail s + ?g + n + 1 = ioTail s + ?P + ?g" using n by simp
  have e2: "ioTail s + ?g + ?P = ioTail s + ?P + ?g" by simp
  have r2: "ring buf' (ioTail s + ?g + ?P) ?Q = concat (map encodeEvent post)"
    unfolding e2 using bq at(5) unfolding e1 by (simp only:)
  have r3: "ring buf' (ioTail s + ?g) (?P + ?Q) = concat (map encodeEvent pre) @ concat (map encodeEvent post)"
    unfolding ring_add r1 r2 ..
  have "ring buf' ((ioTail s + ?g) mod length buf') (?P + ?Q) = ring buf' (ioTail s + ?g) (?P + ?Q)"
    by (rule ring_mod)
  then have r4: "ring buf' ((ioTail s + ?g) mod ?N) (?P + ?Q) =
                 concat (map encodeEvent pre) @ concat (map encodeEvent post)"
    using r3 lb' by simp
  have h': "ioHead s = ((ioTail s + ?g) mod ?N + (?P + ?Q)) mod ?N"
  proof -
    have "((ioTail s + ?g) mod ?N + (?P + ?Q)) mod ?N = (ioTail s + ?g + (?P + ?Q)) mod ?N"
      by (rule mod_add_left_eq)
    also have "ioTail s + ?g + (?P + ?Q) = ioTail s + (?P + (?g + ?Q))" by simp
    finally show ?thesis unfolding h ..
  qed
  have "ioQueue cfg ?s' (pre @ post)"
    unfolding ioQueue_def using lb' at(7) h' r4 la by simp
  then show ?thesis using res by (intro exI [of _ buf']) simp
qed



lemma ioQueue_threeEvents: "ioQueue board threeEvents [(21, [1, 2]), (20, [3]), (21, [4])]"
  by code_simp

text \<open>
  Claim C2. Let the queue hold the events \<open>pre @ (evt, d) # post\<close>, where \<open>pre\<close> is not
  empty and holds no event of type \<open>eventType\<close>, and \<open>evt\<close> is of that type (for the
  claim: \<open>pre = [A]\<close>, \<open>(evt, d) = B\<close>, \<open>post = [C]\<close>). Then jshPopIOEventOfType returns the
  flags \<open>evt\<close>, writes the payload \<open>d\<close> (and its length) to the caller, and leaves the
  queue holding \<open>pre @ post\<close>, in that order: the bytes of \<open>pre\<close> have moved up by the size
  of the event taken out, and ioTail with them.
\<close>

theorem jshPopIOEventOfType_first_match:
  assumes "IOBUFFERMASK cfg = 2 ^ k - 1"
    and "ioQueue cfg s (pre @ (evt, d) # post)"
    and "pre \<noteq> []"
    and "\<forall>e\<in>set pre. IOEVENTFLAGS_GETTYPE cfg (fst e) \<noteq> eventType"
    and "IOEVENTFLAGS_GETTYPE cfg evt = eventType"
  shows "\<exists>s'. jshPopIOEventOfType cfg eventType s = Some (evt, Some d, s') \<and>
              ioQueue cfg s' (pre @ post) \<and>
              ioHead s' = ioHead s \<and>
              ioTail s' = (ioTail s + (length d + 2)) mod (IOBUFFERMASK cfg + 1)"
proof -
  from ioScanType_match [OF assms] obtain buf' where
    r: "jshPopIOEventOfType cfg eventType s =
           Some (evt, Some d,
                 s\<lparr>ioBuffer := buf',
                   ioTail := (ioTail s + (length d + 2)) mod (IOBUFFERMASK cfg + 1),
                   ioLastHead := ioHead s\<rparr>)"
    and q: "ioQueue cfg
             (s\<lparr>ioBuffer := buf',
                ioTail := (ioTail s + (length d + 2)) mod (IOBUFFERMASK cfg + 1),
                ioLastHead := ioHead s\<rparr>) (pre @ post)"
    by blast
  show ?thesis
    unfolding r using q
    by (intro exI [of _ "s\<lparr>ioBuffer := buf',
                   ioTail := (ioTail s + (length d + 2)) mod (IOBUFFERMASK cfg + 1),
                   ioLastHead := ioHead s\<rparr>"]) simp
qed

theorem jshPopIOEventOfType_first_match_witness:
  "\<exists>s'. jshPopIOEventOfType board 20 threeEvents = Some (20, Some [3], s') \<and>
        ioQueue board s' [(21, [1, 2]), (21, [4])] \<and>
        ioHead s' = 10 \<and> ioTail s' = 3"
proof -
  have ty: "\<forall>e\<in>set [(21, [1, 2 :: 8 word])]. IOEVENTFLAGS_GETTYPE board (fst e) \<noteq> 20"
    "IOEVENTFLAGS_GETTYPE board 20 = 20"
    by (simp_all add: IOEVENTFLAGS_GETTYPE_def board_def board0_def)
  have q: "ioQueue board threeEvents ([(21, [1, 2])] @ (20, [3]) # [(21, [4])])"
    using ioQueue_threeEvents by simp
  have v: "ioHead threeEvents = 10" "ioTail threeEvents = 0" "IOBUFFERMASK board = 31"
    by code_simp+
  show ?thesis
    using jshPopIOEventOfType_first_match [OF board_consts(1) q _ ty]
    by (simp add: v)
qed

text \<open>
  The compaction loop copies first and tests \<open>src==ioTail\<close> afterwards. When the event
  found is the one at the tail, \<open>src\<close> starts one byte before the tail and the loop goes
  round the whole buffer: the events behind the one returned are moved along with
  everything else while ioHead stays, and the next event popped is not one that was
  pushed.
\<close>

lemma jshPopIOEventOfType_at_tail:
  "jshPopIOEventOfType board 21 threeEvents =
     Some (21, Some [1, 2],
           threeEvents\<lparr>ioBuffer := replicate 8 0 @ [1, 20, 3, 1, 21, 4] @ replicate 18 0,
                        ioTail := 4, ioLastHead := 10\<rparr>) \<and>
   ioHead threeEvents = 10 \<and>
   fst (jshPopIOEvent board
          (threeEvents\<lparr>ioBuffer := replicate 8 0 @ [1, 20, 3, 1, 21, 4] @ replicate 18 0,
                        ioTail := 4, ioLastHead := 10\<rparr>)) = 0 \<and>
   fst (snd (jshPopIOEvent board
          (threeEvents\<lparr>ioBuffer := replicate 8 0 @ [1, 20, 3, 1, 21, 4] @ replicate 18 0,
                        ioTail := 4, ioLastHead := 10\<rparr>))) = Some []"
  by code_simp

section \<open>The event phase of a pass of jsiIdle\<close>

lemma queueExtended_refl: "queueExtended cfg s s"
  unfolding queueExtended_def by (auto intro: exI [of _ "[]"])

lemma queueExtended_trans:
  assumes "queueExtended cfg s s1" "queueExtended cfg s1 s2"
  shows "queueExtended cfg s s2"
  unfolding queueExtended_def
proof (intro conjI allI impI)
  show "consoleDevice s2 = consoleDevice s" using assms by (simp add: queueExtended_def)
next
  fix q assume "ioQueue cfg s q"
  then obtain new1 where "ioQueue cfg s1 (q @ new1)" using assms(1) by (auto simp add: queueExtended_def)
  then obtain new2 where "ioQueue cfg s2 ((q @ new1) @ new2)" using assms(2) by (auto simp add: queueExtended_def)
  then have "ioQueue cfg s2 (q @ (new1 @ new2))" by simp
  then show "\<exists>new. ioQueue cfg s2 (q @ new)" ..
qed

lemma queueExtended_same:
  assumes "ioBuffer s' = ioBuffer s" "ioHead s' = ioHead s" "ioTail s' = ioTail s"
    "consoleDevice s' = consoleDevice s"
  shows "queueExtended cfg s s'"
  unfolding queueExtended_def
proof (intro conjI allI impI)
  show "consoleDevice s' = consoleDevice s" by (rule assms(4))
next
  fix q assume "ioQueue cfg s q"
  then have "ioQueue cfg s' (q @ [])" using assms by (simp add: ioQueue_def)
  then show "\<exists>new. ioQueue cfg s' (q @ new)" ..
qed

lemma notLoopback_extended:
  "queueExtended cfg s s' \<Longrightarrow> notLoopback cfg s \<Longrightarrow> notLoopback cfg s'"
  by (simp add: queueExtended_def notLoopback_def)

lemma pushesEventsD:
  "pushesEvents cfg h \<Longrightarrow> notLoopback cfg s \<Longrightarrow> h s = Some s' \<Longrightarrow> queueExtended cfg s s'"
  by (simp add: pushesEvents_def)

lemma jsiSetBusy_extended: "queueExtended cfg s (jsiSetBusy cfg dev b s)"
  by (rule queueExtended_same) (simp_all add: jsiSetBusy_def Let_def jshPinOutput_def)

lemma jshTransmitStore_extended: "queueExtended cfg s (jshTransmitStore n dev d s)"
  by (rule queueExtended_same) (simp_all add: jshTransmitStore_def jshUSARTKick_def)

lemma jshTransmitWait_extended_aux:
  assumes r: "jshTransmitWait cfg n s = Some r"
  shows "pushesEvents cfg (\<lambda>s. Some (jshBusyIdle cfg s)) \<longrightarrow> notLoopback cfg s \<longrightarrow>
         queueExtended cfg s (snd r)"
proof (rule jshTransmitWait.raw_induct
    [where P = "\<lambda>c n s r. pushesEvents c (\<lambda>s. Some (jshBusyIdle c s)) \<longrightarrow> notLoopback c s \<longrightarrow>
                  queueExtended c s (snd r)", OF _ r])
  fix wait c n s r
  assume IH: "\<And>c h s' y. wait c h s' = Some y \<Longrightarrow>
          pushesEvents c (\<lambda>s. Some (jshBusyIdle c s)) \<longrightarrow> notLoopback c s' \<longrightarrow>
          queueExtended c s' (snd y)"
    and eq: "(if n = txTail s
              then if jshIsInInterrupt s
                   then Some (False, s\<lparr>jsErrorFlags := jsErrorFlags s OR JSERR_BUFFER_FULL c\<rparr>)
                   else wait c n (jshBusyIdle c s)
              else Some (True, s)) = Some r"
  show "pushesEvents c (\<lambda>s. Some (jshBusyIdle c s)) \<longrightarrow> notLoopback c s \<longrightarrow>
        queueExtended c s (snd r)"
  proof (intro impI)
    assume idle: "pushesEvents c (\<lambda>s. Some (jshBusyIdle c s))" and nl: "notLoopback c s"
    show "queueExtended c s (snd r)"
    proof (cases "n = txTail s \<and> \<not> jshIsInInterrupt s")
      case True
      then have w: "wait c n (jshBusyIdle c s) = Some r" using eq by simp
      have e1: "queueExtended c s (jshBusyIdle c s)"
        by (rule pushesEventsD [OF idle nl]) simp
      have "queueExtended c (jshBusyIdle c s) (snd r)"
        using IH [OF w] idle notLoopback_extended [OF e1 nl] by simp
      with e1 show ?thesis by (rule queueExtended_trans)
    next
      case False
      then have "r = (True, s) \<or> r = (False, s\<lparr>jsErrorFlags := jsErrorFlags s OR JSERR_BUFFER_FULL c\<rparr>)"
        using eq by (auto split: if_splits)
      then show ?thesis
        by (auto intro: queueExtended_refl queueExtended_same)
    qed
  qed
qed

lemma jshTransmitWait_extended:
  assumes idle: "pushesEvents cfg (\<lambda>s. Some (jshBusyIdle cfg s))"
    and r: "jshTransmitWait cfg n s = Some r"
    and nl: "notLoopback cfg s"
  shows "queueExtended cfg s (snd r)"
  using jshTransmitWait_extended_aux [OF r] idle nl by simp

lemma jshTransmit_extended:
  assumes idle: "pushesEvents cfg (\<lambda>s. Some (jshBusyIdle cfg s))"
    and nl: "notLoopback cfg s"
    and dev: "device \<noteq> EV_LOOPBACKA cfg" "device \<noteq> EV_LOOPBACKB cfg"
    and r: "jshTransmit cfg device d s = Some s'"
  shows "queueExtended cfg s s'"
proof (cases "device = EV_NONE cfg")
  case True
  then show ?thesis using r dev by (simp add: jshTransmit_def queueExtended_refl)
next
  case ne: False
  show ?thesis
  proof (cases "(txHead s + 1) AND TXBUFFERMASK cfg = txTail s")
    case False
    then have "s' = jshTransmitStore ((txHead s + 1) AND TXBUFFERMASK cfg) device d s"
      using r dev ne by (simp add: jshTransmit_def)
    then show ?thesis by (simp add: jshTransmitStore_extended)
  next
    case True
    let ?s0 = "jsiSetBusy cfg (BUSY_TRANSMIT cfg) True s"
    have e0: "queueExtended cfg s ?s0" by (rule jsiSetBusy_extended)
    have nl0: "notLoopback cfg ?s0" by (rule notLoopback_extended [OF e0 nl])
    obtain b s1 where w: "jshTransmitWait cfg ((txHead s + 1) AND TXBUFFERMASK cfg) ?s0 = Some (b, s1)"
      using r dev ne True by (auto simp add: jshTransmit_def split: option.splits)
    have e1: "queueExtended cfg ?s0 s1"
      using jshTransmitWait_extended [OF idle w nl0] by simp
    have e01: "queueExtended cfg s s1" by (rule queueExtended_trans [OF e0 e1])
    show ?thesis
    proof (cases b)
      case False
      then have "s' = s1" using r dev ne True w by (simp add: jshTransmit_def)
      then show ?thesis using e01 by simp
    next
      case b: True
      let ?s2 = "jsiSetBusy cfg (BUSY_TRANSMIT cfg) False s1"
      have "\<exists>dv. s' = jshTransmitStore ((txHead s + 1) AND TXBUFFERMASK cfg) dv d ?s2"
        using r dev ne True w b by (auto simp add: jshTransmit_def)
      then have "queueExtended cfg ?s2 s'" by (auto simp add: jshTransmitStore_extended)
      moreover have "queueExtended cfg s1 ?s2" by (rule jsiSetBusy_extended)
      ultimately show ?thesis using e01 by (blast intro: queueExtended_trans)
    qed
  qed
qed

lemma jsiConsolePrintChar_extended:
  assumes idle: "pushesEvents cfg (\<lambda>s. Some (jshBusyIdle cfg s))"
    and nl: "notLoopback cfg s"
    and r: "jsiConsolePrintChar cfg d s = Some s'"
  shows "queueExtended cfg s s'"
  using jshTransmit_extended [OF idle nl _ _ r [unfolded jsiConsolePrintChar_def]] nl
  by (simp add: notLoopback_def)

lemma jsiConsolePrintString_extended:
  assumes idle: "pushesEvents cfg (\<lambda>s. Some (jshBusyIdle cfg s))"
  shows "notLoopback cfg s \<Longrightarrow> jsiConsolePrintString cfg str s = Some s' \<Longrightarrow> queueExtended cfg s s'"
proof (induction str arbitrary: s)
  case Nil
  then show ?case by (simp add: queueExtended_refl)
next
  case (Cons c str)
  obtain s1 where s1: "(if c = 10 then jsiConsolePrintChar cfg 13 s else Some s) = Some s1"
    using Cons.prems(2) by (auto split: option.splits)
  have e1: "queueExtended cfg s s1"
    using s1 jsiConsolePrintChar_extended [OF idle Cons.prems(1)]
    by (auto split: if_splits intro: queueExtended_refl)
  have nl1: "notLoopback cfg s1" by (rule notLoopback_extended [OF e1 Cons.prems(1)])
  obtain s2 where s2: "jsiConsolePrintChar cfg c s1 = Some s2"
    and rest: "jsiConsolePrintString cfg str s2 = Some s'"
    using Cons.prems(2) s1 by (auto split: option.splits)
  have e2: "queueExtended cfg s1 s2" by (rule jsiConsolePrintChar_extended [OF idle nl1 s2])
  have nl2: "notLoopback cfg s2" by (rule notLoopback_extended [OF e2 nl1])
  have e3: "queueExtended cfg s2 s'" by (rule Cons.IH [OF nl2 rest])
  show ?case using e1 e2 e3 by (blast intro: queueExtended_trans)
qed


lemma jsiPacketExit_extended: "queueExtended cfg s (jsiPacketExit s)"
  by (rule queueExtended_same)
     (simp_all add: jsiPacketExit_def jsiInputLineCursorMoved_def Let_def)

lemma jsiPacketStart_extended: "queueExtended cfg s (jsiPacketStart s)"
  by (rule queueExtended_same)
     (simp_all add: jsiPacketStart_def jsiInputLineCursorMoved_def Let_def)

lemma jsiAppendToInputLine_extended: "queueExtended cfg s (jsiAppendToInputLine ch s)"
  by (rule queueExtended_same) (simp_all add: jsiAppendToInputLine_def Let_def)

lemma handlersPushEventsD:
  assumes "handlersPushEvents cfg hk"
  shows "pushesEvents cfg (\<lambda>s. Some (jshBusyIdle cfg s))"
    and "pushesEvents cfg (jsiPasswordEntry cfg ch)"
    and "pushesEvents cfg (jsiLineEditing cfg ch)"
    and "pushesEvents cfg (jsiPacketEval cfg)"
    and "pushesEvents cfg (jsiPacketEvent cfg)"
    and "pushesEvents cfg (jsiPacketFileRecv cfg)"
    and "pushesEvents cfg (jsiPacketFileSend cfg)"
    and "pushesEvents cfg (jsiPacketData cfg)"
    and "pushesEvents cfg (jswrap_stream_pushData hk eventType str)"
    and "pushesEvents cfg (jsiOtherEvent hk eventFlags d)"
  using assms by (simp_all add: handlersPushEvents_def)

lemma jsiPacketProcess_extended:
  assumes H: "handlersPushEvents cfg hk" and nl: "notLoopback cfg s"
    and r: "jsiPacketProcess cfg s = Some s'"
  shows "queueExtended cfg s s'"
proof -
  let ?s1 = "s\<lparr>inputPacketLength := inputPacketLength s AND PT_SIZE_MASK\<rparr>"
  let ?t = "inputPacketLength s AND PT_TYPE_MASK"
  have e1: "queueExtended cfg s ?s1" by (rule queueExtended_same) simp_all
  have nl1: "notLoopback cfg ?s1" by (rule notLoopback_extended [OF e1 nl])
  have idle: "pushesEvents cfg (\<lambda>s. Some (jshBusyIdle cfg s))"
    using H by (simp add: handlersPushEvents_def)
  obtain s2 where s2: "(if ?t = PT_TYPE_EVAL then jsiPacketEval cfg ?s1
            else if ?t = PT_TYPE_EVENT then jsiPacketEvent cfg ?s1
            else if ?t = PT_TYPE_FILE_RECV then jsiPacketFileRecv cfg ?s1
            else if ?t = PT_TYPE_FILE_SEND then jsiPacketFileSend cfg ?s1
            else if ?t = PT_TYPE_DATA then jsiPacketData cfg ?s1
            else jsiConsolePrintChar cfg ASCII_NAK ?s1) = Some s2"
    and s': "s' = jsiPacketExit s2"
    using r unfolding jsiPacketProcess_def Let_def by (auto split: option.splits)
  have e2: "queueExtended cfg ?s1 s2"
  proof -
    consider "jsiPacketEval cfg ?s1 = Some s2" | "jsiPacketEvent cfg ?s1 = Some s2"
      | "jsiPacketFileRecv cfg ?s1 = Some s2" | "jsiPacketFileSend cfg ?s1 = Some s2"
      | "jsiPacketData cfg ?s1 = Some s2" | "jsiConsolePrintChar cfg ASCII_NAK ?s1 = Some s2"
      using s2 by (auto split: if_splits)
    then show ?thesis
    proof cases
      case 1
      show ?thesis by (rule pushesEventsD [OF handlersPushEventsD(4) [OF H] nl1 1])
    next
      case 2
      show ?thesis by (rule pushesEventsD [OF handlersPushEventsD(5) [OF H] nl1 2])
    next
      case 3
      show ?thesis by (rule pushesEventsD [OF handlersPushEventsD(6) [OF H] nl1 3])
    next
      case 4
      show ?thesis by (rule pushesEventsD [OF handlersPushEventsD(7) [OF H] nl1 4])
    next
      case 5
      show ?thesis by (rule pushesEventsD [OF handlersPushEventsD(8) [OF H] nl1 5])
    next
      case 6
      show ?thesis by (rule jsiConsolePrintChar_extended [OF idle nl1 6])
    qed
  qed
  have "queueExtended cfg s2 s'" unfolding s' by (rule jsiPacketExit_extended)
  with e1 e2 show ?thesis by (blast intro: queueExtended_trans)
qed

lemma jsiHandleConsoleChar_extended:
  assumes H: "handlersPushEvents cfg hk" and nl: "notLoopback cfg s0"
    and r: "jsiHandleConsoleChar cfg ch s0 = Some s'"
  shows "queueExtended cfg s0 s'"
proof (cases "jsiPasswordProtected cfg s0")
  case True
  then have "jsiPasswordEntry cfg ch s0 = Some s'" using r by (simp add: jsiHandleConsoleChar_def)
  then show ?thesis
    by (rule pushesEventsD [OF handlersPushEventsD(2) [OF H] nl])
next
  case False
  define s where "s = (if ch = 3 \<and> IS_PACKET_TRANSFER (inputState s0)
                  then s0\<lparr>execute := execute s0 AND NOT (EXEC_CTRL_C_MASK cfg)\<rparr>
                  else s0)"
  have e0: "queueExtended cfg s0 s" by (rule queueExtended_same) (simp_all add: s_def)
  have nls: "notLoopback cfg s" by (rule notLoopback_extended [OF e0 nl])
  have idle: "pushesEvents cfg (\<lambda>s. Some (jshBusyIdle cfg s))"
    using H by (simp add: handlersPushEvents_def)
  note body = r [unfolded jsiHandleConsoleChar_def Let_def, folded s_def]
  have "queueExtended cfg s s'"
  proof (cases "inputState s = IPS_PACKET_TRANSFER_BYTE0")
    case True
    then have "s' = (if inputLine s = []
                    then s\<lparr>jsiStatus := jsiStatus s AND NOT (JSIS_ECHO_OFF_FOR_LINE cfg)\<rparr>
                    else s)
                   \<lparr>inputPacketLength := push_bit 8 (ucast ch),
                    inputState := IPS_PACKET_TRANSFER_BYTE1\<rparr>"
      using body False by simp
    then show ?thesis by (intro queueExtended_same) simp_all
  next
    case n0: False
    show ?thesis
    proof (cases "inputState s = IPS_PACKET_TRANSFER_BYTE1")
      case True
      let ?s1 = "s\<lparr>inputPacketLength := inputPacketLength s OR ucast ch\<rparr>"
      have e1: "queueExtended cfg s ?s1" by (rule queueExtended_same) simp_all
      have nl1: "notLoopback cfg ?s1" by (rule notLoopback_extended [OF e1 nls])
      have "jsiPacketProcess cfg ?s1 = Some s' \<or> s' = ?s1\<lparr>inputState := IPS_PACKET_TRANSFER_DATA\<rparr>"
        using body False True by (auto split: if_splits)
      then have "queueExtended cfg ?s1 s'"
        using jsiPacketProcess_extended [OF H nl1] by (auto intro: queueExtended_same)
      with e1 show ?thesis by (rule queueExtended_trans)
    next
      case n1: False
      show ?thesis
      proof (cases "inputState s = IPS_PACKET_TRANSFER_DATA")
        case True
        let ?s1 = "jsiAppendToInputLine ch s"
        have e1: "queueExtended cfg s ?s1" by (rule jsiAppendToInputLine_extended)
        have nl1: "notLoopback cfg ?s1" by (rule notLoopback_extended [OF e1 nls])
        have "jsiPacketProcess cfg ?s1 = Some s' \<or> s' = ?s1"
          using body False True by (auto split: if_splits)
        then have "queueExtended cfg ?s1 s'"
          using jsiPacketProcess_extended [OF H nl1] by (auto intro: queueExtended_refl)
        with e1 show ?thesis by (rule queueExtended_trans)
      next
        case n2: False
        have rest: "(if ch = 0 then Some (s\<lparr>inputState := IPS_NONE\<rparr>)
           else if ch = 1 then
             (if inputState s = IPS_HAD_DLE then Some (jsiPacketStart s) else Some s)
           else if ch = 3 then Some s
           else if ch = 5 then
             (if inputLine s = [] then jsiConsolePrintString cfg (versionBanner cfg) s
              else Some s)
           else if ch = 16 then
             Some ((if inputLine s = []
                    then s\<lparr>jsiStatus := jsiStatus s OR JSIS_ECHO_OFF_FOR_LINE cfg\<rparr>
                    else s)
                   \<lparr>inputState := IPS_HAD_DLE\<rparr>)
           else if ch = 27 then Some (s\<lparr>inputState := IPS_HAD_27\<rparr>)
           else jsiLineEditing cfg ch s) = Some s'"
          using body False n0 n1 n2 by simp
        have "(ioBuffer s' = ioBuffer s \<and> ioHead s' = ioHead s \<and> ioTail s' = ioTail s \<and>
                    consoleDevice s' = consoleDevice s) \<or>
              s' = jsiPacketStart s \<or>
              jsiConsolePrintString cfg (versionBanner cfg) s = Some s' \<or>
              jsiLineEditing cfg ch s = Some s'"
        proof (cases "ch = 0")
          case True
          have "Some (s\<lparr>inputState := IPS_NONE\<rparr>) = Some s'"
            using rest unfolding if_P [OF True] .
          then show ?thesis by auto
        next
          case c0: False
          note r0 = rest [unfolded if_not_P [OF c0]]
          show ?thesis
          proof (cases "ch = 1")
            case True
            have "(if inputState s = IPS_HAD_DLE then Some (jsiPacketStart s) else Some s) = Some s'"
              using r0 unfolding if_P [OF True] .
            then show ?thesis by (cases "inputState s = IPS_HAD_DLE") auto
          next
            case c1: False
            note r1 = r0 [unfolded if_not_P [OF c1]]
            show ?thesis
            proof (cases "ch = 3")
              case True
              have "Some s = Some s'" using r1 unfolding if_P [OF True] .
              then show ?thesis by auto
            next
              case c3: False
              note r3 = r1 [unfolded if_not_P [OF c3]]
              show ?thesis
              proof (cases "ch = 5")
                case True
                have "(if inputLine s = [] then jsiConsolePrintString cfg (versionBanner cfg) s
                       else Some s) = Some s'"
                  using r3 unfolding if_P [OF True] .
                then show ?thesis by (cases "inputLine s = []") auto
              next
                case c5: False
                note r5 = r3 [unfolded if_not_P [OF c5]]
                show ?thesis
                proof (cases "ch = 16")
                  case True
                  have "Some ((if inputLine s = []
                    then s\<lparr>jsiStatus := jsiStatus s OR JSIS_ECHO_OFF_FOR_LINE cfg\<rparr>
                    else s)
                   \<lparr>inputState := IPS_HAD_DLE\<rparr>) = Some s'"
                    using r5 unfolding if_P [OF True] .
                  then show ?thesis by (cases "inputLine s = []") auto
                next
                  case c16: False
                  note r16 = r5 [unfolded if_not_P [OF c16]]
                  show ?thesis
                  proof (cases "ch = 27")
                    case True
                    have "Some (s\<lparr>inputState := IPS_HAD_27\<rparr>) = Some s'"
                      using r16 unfolding if_P [OF True] .
                    then show ?thesis by auto
                  next
                    case c27: False
                    have "jsiLineEditing cfg ch s = Some s'"
                      using r16 unfolding if_not_P [OF c27] .
                    then show ?thesis by simp
                  qed
                qed
              qed
            qed
          qed
        qed
        then consider (same) "ioBuffer s' = ioBuffer s \<and> ioHead s' = ioHead s \<and> ioTail s' = ioTail s \<and>
                    consoleDevice s' = consoleDevice s"
          | (start) "s' = jsiPacketStart s"
          | (banner) "jsiConsolePrintString cfg (versionBanner cfg) s = Some s'"
          | (edit) "jsiLineEditing cfg ch s = Some s'"
          by blast
        then show ?thesis
        proof cases
          case same
          then show ?thesis by (intro queueExtended_same) simp_all
        next
          case start
          then show ?thesis by (simp add: jsiPacketStart_extended)
        next
          case banner
          then show ?thesis by (rule jsiConsolePrintString_extended [OF idle nls])
        next
          case edit
          then show ?thesis
            by (rule pushesEventsD [OF handlersPushEventsD(3) [OF H] nls])
        qed
      qed
    qed
  qed
  with e0 show ?thesis by (rule queueExtended_trans)
qed

lemma jsiHandleConsoleChars_extended:
  assumes H: "handlersPushEvents cfg hk"
  shows "notLoopback cfg s \<Longrightarrow> jsiHandleConsoleChars cfg chs s = Some s' \<Longrightarrow> queueExtended cfg s s'"
proof (induction chs arbitrary: s)
  case Nil
  then show ?case by (simp add: queueExtended_refl)
next
  case (Cons ch chs)
  obtain s1 where s1: "jsiHandleConsoleChar cfg ch s = Some s1"
    and rest: "jsiHandleConsoleChars cfg chs s1 = Some s'"
    using Cons.prems(2) by (auto split: option.splits)
  have e1: "queueExtended cfg s s1" by (rule jsiHandleConsoleChar_extended [OF H Cons.prems(1) s1])
  have "queueExtended cfg s1 s'"
    by (rule Cons.IH [OF notLoopback_extended [OF e1 Cons.prems(1)] rest])
  with e1 show ?case by (rule queueExtended_trans)
qed

lemma jsiHandleIOEventForConsole_extended:
  assumes H: "handlersPushEvents cfg hk" and nl: "notLoopback cfg s"
    and r: "jsiHandleIOEventForConsole cfg d s = Some s'"
  shows "queueExtended cfg s s'"
proof -
  let ?s0 = "jsiSetBusy cfg (BUSY_INTERACTIVE cfg) True s"
  have e0: "queueExtended cfg s ?s0" by (rule jsiSetBusy_extended)
  obtain s1 where s1: "jsiHandleConsoleChars cfg d ?s0 = Some s1"
    and s': "s' = jsiSetBusy cfg (BUSY_INTERACTIVE cfg) False s1"
    using r by (auto simp add: jsiHandleIOEventForConsole_def split: option.splits)
  have e1: "queueExtended cfg ?s0 s1"
    by (rule jsiHandleConsoleChars_extended [OF H notLoopback_extended [OF e0 nl] s1])
  have "queueExtended cfg s1 s'" unfolding s' by (rule jsiSetBusy_extended)
  with e0 e1 show ?thesis by (blast intro: queueExtended_trans)
qed


lemma jshPopIOEvent_consoleDevice:
  "consoleDevice (snd (snd (jshPopIOEvent cfg s))) = consoleDevice s"
  by (simp add: jshPopIOEvent_def Let_def split: prod.splits)

lemma jsiSerialMore_queue_aux:
  assumes r: "jsiSerialMore cfg ty d str popped s = Some r"
  shows "IOBUFFERMASK cfg = 2 ^ k - 1 \<longrightarrow>
         consoleDevice (snd (snd (snd r))) = consoleDevice s \<and>
         (\<forall>q. ioQueue cfg s q \<longrightarrow>
              (\<exists>took rest. fst (snd (snd r)) = popped @ took \<and> q = took @ rest \<and>
                           ioQueue cfg (snd (snd (snd r))) rest))"
proof (rule jsiSerialMore.raw_induct
    [where P = "\<lambda>c ty d str popped s r. IOBUFFERMASK c = 2 ^ k - 1 \<longrightarrow>
         consoleDevice (snd (snd (snd r))) = consoleDevice s \<and>
         (\<forall>q. ioQueue c s q \<longrightarrow>
              (\<exists>took rest. fst (snd (snd r)) = popped @ took \<and> q = took @ rest \<and>
                           ioQueue c (snd (snd (snd r))) rest))", OF _ r])
  fix f c ty d str popped s r
  assume IH: "\<And>c ty d str popped s r. f c ty d str popped s = Some r \<Longrightarrow>
         IOBUFFERMASK c = 2 ^ k - 1 \<longrightarrow>
         consoleDevice (snd (snd (snd r))) = consoleDevice s \<and>
         (\<forall>q. ioQueue c s q \<longrightarrow>
              (\<exists>took rest. fst (snd (snd r)) = popped @ took \<and> q = took @ rest \<and>
                           ioQueue c (snd (snd (snd r))) rest))"
    and eq: "(if jshIsTopEvent c ty s then
        (case fst (snd (jshPopIOEvent c s)) of
           None \<Rightarrow>
             f c ty d (str @ d) popped (snd (snd (jshPopIOEvent c s)))
         | Some d1 \<Rightarrow>
             f c ty d1 (str @ d1)
               (popped @ [(fst (jshPopIOEvent c s), d1)]) (snd (snd (jshPopIOEvent c s))))
      else Some (d, str, popped, s)) = Some r"
  show "IOBUFFERMASK c = 2 ^ k - 1 \<longrightarrow>
         consoleDevice (snd (snd (snd r))) = consoleDevice s \<and>
         (\<forall>q. ioQueue c s q \<longrightarrow>
              (\<exists>took rest. fst (snd (snd r)) = popped @ took \<and> q = took @ rest \<and>
                           ioQueue c (snd (snd (snd r))) rest))"
  proof (intro impI)
    assume msk: "IOBUFFERMASK c = 2 ^ k - 1"
    show "consoleDevice (snd (snd (snd r))) = consoleDevice s \<and>
         (\<forall>q. ioQueue c s q \<longrightarrow>
              (\<exists>took rest. fst (snd (snd r)) = popped @ took \<and> q = took @ rest \<and>
                           ioQueue c (snd (snd (snd r))) rest))"
    proof (cases "jshIsTopEvent c ty s")
      case False
      then have "r = (d, str, popped, s)" using eq by simp
      then show ?thesis by auto
    next
      case top: True
      let ?s1 = "snd (snd (jshPopIOEvent c s))"
      show ?thesis
      proof (cases "fst (snd (jshPopIOEvent c s))")
        case None
        then have call: "f c ty d (str @ d) popped ?s1 = Some r" using eq top by simp
        note ih = IH [OF call, rule_format, OF msk]
        have ne: "ioHead s \<noteq> ioTail s" using top by (auto simp add: jshIsTopEvent_def split: if_splits)
        have no: "\<not> ioQueue c s q" for q
        proof
          assume q: "ioQueue c s q"
          then have "q \<noteq> []" using ioQueue_empty_iff [OF q] ne by simp
          then obtain evt dd q' where "q = (evt, dd) # q'" by (cases q) auto
          from jshPopIOEvent_queue(1) [OF msk q [unfolded this]] None show False by simp
        qed
        show ?thesis using ih jshPopIOEvent_consoleDevice [of c s] no by simp
      next
        case (Some d1)
        then have call: "f c ty d1 (str @ d1) (popped @ [(fst (jshPopIOEvent c s), d1)]) ?s1 = Some r"
          using eq top by simp
        note ih = IH [OF call, rule_format, OF msk]
        have cd: "consoleDevice (snd (snd (snd r))) = consoleDevice s"
          using ih jshPopIOEvent_consoleDevice [of c s] by simp
        have qq: "\<exists>took rest. fst (snd (snd r)) = popped @ took \<and> q = took @ rest \<and>
                           ioQueue c (snd (snd (snd r))) rest" if q: "ioQueue c s q" for q
        proof -
          have ne: "ioHead s \<noteq> ioTail s" using top by (auto simp add: jshIsTopEvent_def split: if_splits)
          then have "q \<noteq> []" using ioQueue_empty_iff [OF q] by simp
          then obtain evt dd q' where qe: "q = (evt, dd) # q'" by (cases q) auto
          note pop = jshPopIOEvent_queue [OF msk q [unfolded qe]]
          have e: "fst (jshPopIOEvent c s) = evt" "d1 = dd" using pop(1) Some by simp_all
          from ih pop(2) obtain took rest where
            "fst (snd (snd r)) = (popped @ [(fst (jshPopIOEvent c s), d1)]) @ took"
            "q' = took @ rest" "ioQueue c (snd (snd (snd r))) rest"
            by blast
          then have "fst (snd (snd r)) = popped @ ((evt, dd) # took) \<and> q = ((evt, dd) # took) @ rest \<and>
                     ioQueue c (snd (snd (snd r))) rest"
            using e qe by simp
          then show ?thesis by blast
        qed
        show ?thesis using cd qq by blast
      qed
    qed
  qed
qed

lemma jsiHandleIOEventForSerial_queue:
  assumes msk: "IOBUFFERMASK cfg = 2 ^ k - 1"
    and H: "handlersPushEvents cfg hk"
    and nl: "notLoopback cfg s"
    and q: "ioQueue cfg s q"
    and r: "jsiHandleIOEventForSerial cfg hk eventFlags d s = Some (n, extra, s')"
  shows "consoleDevice s' = consoleDevice s \<and>
         (\<exists>rest new. q = extra @ rest \<and> ioQueue cfg s' (rest @ new))"
proof (cases "length d \<noteq> 0 \<and> jsvNewStringOfLength hk (length d) s")
  case False
  then have "extra = []" "s' = s" using r by (auto simp add: jsiHandleIOEventForSerial_def)
  then have "q = extra @ q \<and> ioQueue cfg s' (q @ [])" using q by simp
  then show ?thesis using \<open>s' = s\<close> by blast
next
  case True
  obtain d1 str s1 where
    m: "jsiSerialMore cfg (IOEVENTFLAGS_GETTYPE cfg eventFlags) d d [] s = Some (d1, str, extra, s1)"
    and p: "jswrap_stream_pushData hk (IOEVENTFLAGS_GETTYPE cfg eventFlags) str s1 = Some s'"
    using r True by (auto simp add: jsiHandleIOEventForSerial_def split: option.splits)
  from jsiSerialMore_queue_aux [OF m, of k] msk q obtain took rest where
    cd1: "consoleDevice s1 = consoleDevice s"
    and t: "extra = took" "q = took @ rest" "ioQueue cfg s1 rest"
    by auto
  have nl1: "notLoopback cfg s1" using nl cd1 by (simp add: notLoopback_def)
  have e: "queueExtended cfg s1 s'"
    by (rule pushesEventsD [OF handlersPushEventsD(9) [OF H] nl1 p])
  then obtain new where "ioQueue cfg s' (rest @ new)" using t(3) by (auto simp add: queueExtended_def)
  moreover have "consoleDevice s' = consoleDevice s" using e cd1 by (simp add: queueExtended_def)
  ultimately show ?thesis using t by blast
qed


lemma jsiIdleEvents_queue_aux:
  assumes r: "jsiIdleEvents cfg hk maxEvents popped s = Some r"
  shows "IOBUFFERMASK cfg = 2 ^ k - 1 \<longrightarrow> handlersPushEvents cfg hk \<longrightarrow> notLoopback cfg s \<longrightarrow>
         (\<forall>q. ioQueue cfg s q \<longrightarrow>
              (\<exists>took rest new. fst r = popped @ took \<and> took @ rest = q @ new \<and>
                               ioQueue cfg (snd r) rest))"
proof (rule jsiIdleEvents.raw_induct
    [where P = "\<lambda>c hk maxEvents popped s r. IOBUFFERMASK c = 2 ^ k - 1 \<longrightarrow> handlersPushEvents c hk \<longrightarrow> notLoopback c s \<longrightarrow>
         (\<forall>q. ioQueue c s q \<longrightarrow>
              (\<exists>took rest new. fst r = popped @ took \<and> took @ rest = q @ new \<and>
                               ioQueue c (snd r) rest))", OF _ r])
  fix f c hk maxEvents popped s r
  assume IH: "\<And>c hk maxEvents popped s r. f c hk maxEvents popped s = Some r \<Longrightarrow>
         IOBUFFERMASK c = 2 ^ k - 1 \<longrightarrow> handlersPushEvents c hk \<longrightarrow> notLoopback c s \<longrightarrow>
         (\<forall>q. ioQueue c s q \<longrightarrow>
              (\<exists>took rest new. fst r = popped @ took \<and> took @ rest = q @ new \<and>
                               ioQueue c (snd r) rest))"
    and eq: "(if maxEvents > 0 then
        (if fst (jshPopIOEvent c s) = EV_NONE c then
           Some (popped @
                   (case fst (snd (jshPopIOEvent c s)) of
                      None \<Rightarrow> []
                    | Some d \<Rightarrow> [(fst (jshPopIOEvent c s), d)]),
                 snd (snd (jshPopIOEvent c s)))
         else
           (let eventFlags = fst (jshPopIOEvent c s);
                d = (case fst (snd (jshPopIOEvent c s)) of None \<Rightarrow> [] | Some d \<Rightarrow> d);
                s2 = jsiSetBusy c (BUSY_INTERACTIVE c) True (snd (snd (jshPopIOEvent c s)));
                eventType = IOEVENTFLAGS_GETTYPE c eventFlags
            in if eventType = consoleDevice s2 then
                 (case jsiHandleIOEventForConsole c d s2 of
                    None \<Rightarrow> None
                  | Some s3 \<Rightarrow>
                      f c hk (maxEvents - 1) (popped @ [(eventFlags, d)]) s3)
               else if DEVICE_IS_SERIAL hk eventType then
                 (if jsiUsartClassIsObject hk eventType s2 then
                    (case jsiHandleIOEventForSerial c hk eventFlags d s2 of
                       None \<Rightarrow> None
                     | Some (r, extra, s3) \<Rightarrow>
                         f c hk (maxEvents - 1 - r)
                           (popped @ [(eventFlags, d)] @ extra) s3)
                  else f c hk (maxEvents - 1) (popped @ [(eventFlags, d)]) s2)
               else
                 (case jsiOtherEvent hk eventFlags d s2 of
                    None \<Rightarrow> None
                  | Some s3 \<Rightarrow>
                      f c hk (maxEvents - 1) (popped @ [(eventFlags, d)]) s3)))
      else Some (popped, s)) = Some r"
  show "IOBUFFERMASK c = 2 ^ k - 1 \<longrightarrow> handlersPushEvents c hk \<longrightarrow> notLoopback c s \<longrightarrow>
         (\<forall>q. ioQueue c s q \<longrightarrow>
              (\<exists>took rest new. fst r = popped @ took \<and> took @ rest = q @ new \<and>
                               ioQueue c (snd r) rest))"
  proof (intro impI allI)
    fix q
    assume msk: "IOBUFFERMASK c = 2 ^ k - 1" and H: "handlersPushEvents c hk"
      and nl: "notLoopback c s" and q: "ioQueue c s q"
    show "\<exists>took rest new. fst r = popped @ took \<and> took @ rest = q @ new \<and> ioQueue c (snd r) rest"
    proof (cases "maxEvents > 0")
      case False
      then have "r = (popped, s)" using eq by simp
      then have "fst r = popped @ [] \<and> [] @ q = q @ [] \<and> ioQueue c (snd r) q" using q by simp
      then show ?thesis by blast
    next
      case pos: True
      show ?thesis
      proof (cases q)
        case Nil
        then have "jshPopIOEvent c s = (EV_NONE c, None, s)"
          using jshPopIOEvent_empty q by simp
        then have "r = (popped, s)" using eq pos by simp
        then have "fst r = popped @ [] \<and> [] @ q = q @ [] \<and> ioQueue c (snd r) q" using q by simp
        then show ?thesis by blast
      next
        case (Cons e q')
        obtain evt dd where e: "e = (evt, dd)" by (cases e) auto
        have qe: "ioQueue c s ((evt, dd) # q')" using q Cons e by simp
        note pop = jshPopIOEvent_queue [OF msk qe]
        let ?s1 = "snd (snd (jshPopIOEvent c s))"
        have p1: "fst (jshPopIOEvent c s) = evt" "fst (snd (jshPopIOEvent c s)) = Some dd"
          using pop(1) by simp_all
        have q1: "ioQueue c ?s1 q'" by (rule pop(2))
        have nl1: "notLoopback c ?s1"
          using nl jshPopIOEvent_consoleDevice [of c s] by (simp add: notLoopback_def)
        show ?thesis
        proof (cases "evt = EV_NONE c")
          case True
          then have "r = (popped @ [(evt, dd)], ?s1)" using eq pos p1 by simp
          then have "fst r = popped @ [(evt, dd)] \<and> [(evt, dd)] @ q' = q @ [] \<and> ioQueue c (snd r) q'"
            using q1 Cons e by simp
          then show ?thesis by blast
        next
          case nn: False
          let ?s2 = "jsiSetBusy c (BUSY_INTERACTIVE c) True ?s1"
          let ?ty = "IOEVENTFLAGS_GETTYPE c evt"
          have e12: "queueExtended c ?s1 ?s2" by (rule jsiSetBusy_extended)
          have nl2: "notLoopback c ?s2" by (rule notLoopback_extended [OF e12 nl1])
          obtain new0 where q2: "ioQueue c ?s2 (q' @ new0)"
            using e12 q1 by (auto simp add: queueExtended_def)
          note body = eq [unfolded Let_def p1 if_P [OF pos] if_not_P [OF nn] option.case]
          have "\<exists>maxE extra s3 new1 rest1.
                  f c hk maxE (popped @ [(evt, dd)] @ extra) s3 = Some r \<and>
                  notLoopback c s3 \<and> q' @ new0 = extra @ rest1 \<and> ioQueue c s3 (rest1 @ new1)"
          proof (cases "?ty = consoleDevice ?s2")
            case True
            obtain s3 where h: "jsiHandleIOEventForConsole c dd ?s2 = Some s3"
              and call: "f c hk (maxEvents - 1) (popped @ [(evt, dd)]) s3 = Some r"
              using body True by (auto split: option.splits)
            have e3: "queueExtended c ?s2 s3" by (rule jsiHandleIOEventForConsole_extended [OF H nl2 h])
            obtain new1 where "ioQueue c s3 ((q' @ new0) @ new1)"
              using e3 q2 by (auto simp add: queueExtended_def)
            moreover have "notLoopback c s3" by (rule notLoopback_extended [OF e3 nl2])
            ultimately have "f c hk (maxEvents - 1) (popped @ [(evt, dd)] @ []) s3 = Some r \<and>
                  notLoopback c s3 \<and> q' @ new0 = [] @ (q' @ new0) \<and> ioQueue c s3 ((q' @ new0) @ new1)"
              using call by simp
            then show ?thesis by blast
          next
            case nc: False
            show ?thesis
            proof (cases "DEVICE_IS_SERIAL hk ?ty")
              case False
              obtain s3 where h: "jsiOtherEvent hk evt dd ?s2 = Some s3"
                and call: "f c hk (maxEvents - 1) (popped @ [(evt, dd)]) s3 = Some r"
                using body nc False by (auto split: option.splits)
              have e3: "queueExtended c ?s2 s3"
                by (rule pushesEventsD [OF handlersPushEventsD(10) [OF H] nl2 h])
              obtain new1 where "ioQueue c s3 ((q' @ new0) @ new1)"
                using e3 q2 by (auto simp add: queueExtended_def)
              moreover have "notLoopback c s3" by (rule notLoopback_extended [OF e3 nl2])
              ultimately have "f c hk (maxEvents - 1) (popped @ [(evt, dd)] @ []) s3 = Some r \<and>
                    notLoopback c s3 \<and> q' @ new0 = [] @ (q' @ new0) \<and> ioQueue c s3 ((q' @ new0) @ new1)"
                using call by simp
              then show ?thesis by blast
            next
              case ser: True
              show ?thesis
              proof (cases "jsiUsartClassIsObject hk ?ty ?s2")
                case False
                then have call: "f c hk (maxEvents - 1) (popped @ [(evt, dd)]) ?s2 = Some r"
                  using body nc ser by simp
                then have "f c hk (maxEvents - 1) (popped @ [(evt, dd)] @ []) ?s2 = Some r \<and>
                    notLoopback c ?s2 \<and> q' @ new0 = [] @ (q' @ new0) \<and> ioQueue c ?s2 ((q' @ new0) @ [])"
                  using nl2 q2 by simp
                then show ?thesis by blast
              next
                case True
                obtain n extra s3 where h: "jsiHandleIOEventForSerial c hk evt dd ?s2 = Some (n, extra, s3)"
                  and call: "f c hk (maxEvents - 1 - n) (popped @ [(evt, dd)] @ extra) s3 = Some r"
                  using body nc ser True by (auto split: option.splits)
                from jsiHandleIOEventForSerial_queue [OF msk H nl2 q2 h] obtain rest1 new1 where
                  "consoleDevice s3 = consoleDevice ?s2" "q' @ new0 = extra @ rest1"
                  "ioQueue c s3 (rest1 @ new1)" by blast
                moreover have "notLoopback c s3" using nl2 calculation(1) by (simp add: notLoopback_def)
                ultimately show ?thesis using call by blast
              qed
            qed
          qed
          then obtain maxE extra s3 new1 rest1 where
            call: "f c hk maxE (popped @ [(evt, dd)] @ extra) s3 = Some r"
            and nl3: "notLoopback c s3" and sp: "q' @ new0 = extra @ rest1"
            and q3: "ioQueue c s3 (rest1 @ new1)"
            by blast
          from IH [OF call, rule_format, OF msk H nl3 q3] obtain took rest new where
            t: "fst r = (popped @ [(evt, dd)] @ extra) @ took" "took @ rest = (rest1 @ new1) @ new"
              "ioQueue c (snd r) rest"
            by blast
          have "fst r = popped @ ((evt, dd) # extra @ took)" using t(1) by simp
          moreover have "((evt, dd) # extra @ took) @ rest = q @ (new0 @ new1 @ new)"
          proof -
            have "((evt, dd) # extra @ took) @ rest = (evt, dd) # extra @ (took @ rest)" by simp
            also have "\<dots> = (evt, dd) # (extra @ rest1) @ new1 @ new" unfolding t(2) by simp
            also have "\<dots> = (evt, dd) # (q' @ new0) @ new1 @ new" unfolding sp ..
            also have "\<dots> = q @ (new0 @ new1 @ new)" using Cons e by simp
            finally show ?thesis .
          qed
          ultimately show ?thesis using t(3) by blast
        qed
      qed
    qed
  qed
qed


lemma jshPushEvent_consoleDevice:
  "consoleDevice (snd (jshPushEvent cfg evt d len s)) = consoleDevice s"
  by (simp add: jshPushEvent_def jshIOEventOverflowed_def Let_def split: prod.splits)

lemma jshPushEvent_extended:
  assumes msk: "IOBUFFERMASK cfg = 2 ^ k - 1"
    and len: "len \<le> IOEVENT_MAX_LEN cfg" "len < 256" "len \<le> length d"
  shows "queueExtended cfg s (snd (jshPushEvent cfg evt d len s))"
  unfolding queueExtended_def
proof (intro conjI allI impI)
  show "consoleDevice (snd (jshPushEvent cfg evt d len s)) = consoleDevice s"
    by (rule jshPushEvent_consoleDevice)
next
  fix q assume q: "ioQueue cfg s q"
  show "\<exists>new. ioQueue cfg (snd (jshPushEvent cfg evt d len s)) (q @ new)"
  proof (cases "jshGetIOCharEventsFree cfg s < int len + 2")
    case True
    have "ioQueue cfg (snd (jshPushEvent cfg evt d len s)) (q @ [])"
      unfolding jshPushEvent_full [OF len(1) True] using q by simp
    then show ?thesis ..
  next
    case False
    then have "int len + 2 \<le> jshGetIOCharEventsFree cfg s" by simp
    from jshPushEvent_queue [OF msk q len this] show ?thesis ..
  qed
qed

lemma ioQueue_board0: "ioQueue board0 = ioQueue board"
  by (simp add: fun_eq_iff ioQueue_def board_def)

lemma queueExtended_board0: "queueExtended board0 = queueExtended board"
  by (simp add: fun_eq_iff queueExtended_def ioQueue_board0)

lemma notLoopback_board0: "notLoopback board0 = notLoopback board"
  by (simp add: fun_eq_iff notLoopback_def board_def)

lemma pushesEvents_board0: "pushesEvents board0 = pushesEvents board"
  by (simp add: fun_eq_iff pushesEvents_def queueExtended_board0 notLoopback_board0)

lemma jshBusyIdle_board0: "pushesEvents board0 (\<lambda>s. Some (jshBusyIdle board0 s))"
  unfolding pushesEvents_def
  by (auto intro!: queueExtended_same simp add: board0_def)

lemma jsiConsolePrintChar_board0: "pushesEvents board (jsiConsolePrintChar board0 ch)"
  unfolding pushesEvents_board0 [symmetric] pushesEvents_def
  using jsiConsolePrintChar_extended [OF jshBusyIdle_board0] by blast

lemma handlersPushEvents_board: "handlersPushEvents board boardHooks"
  unfolding handlersPushEvents_def
proof (intro conjI allI)
  show "pushesEvents board (\<lambda>s. Some (jshBusyIdle board s))"
    unfolding pushesEvents_def
    by (auto intro!: queueExtended_same simp add: board_def board0_def)
  show "pushesEvents board (jsiPasswordEntry board ch)" for ch
    unfolding pushesEvents_def
    by (auto intro!: queueExtended_same simp add: board_def board0_def)
  show "pushesEvents board (jsiLineEditing board ch)" for ch
    unfolding pushesEvents_def
    by (auto intro!: queueExtended_same simp add: board_def board0_def)
  show "pushesEvents board (jsiPacketEval board)"
    using jsiConsolePrintChar_board0 [of ASCII_ACK] by (simp add: board_def)
  show "pushesEvents board (jsiPacketEvent board)"
    using jsiConsolePrintChar_board0 [of ASCII_ACK] by (simp add: board_def)
  show "pushesEvents board (jsiPacketFileRecv board)"
    using jsiConsolePrintChar_board0 [of ASCII_ACK] by (simp add: board_def)
  show "pushesEvents board (jsiPacketFileSend board)"
    using jsiConsolePrintChar_board0 [of ASCII_ACK] by (simp add: board_def)
  show "pushesEvents board (jsiPacketData board)"
    using jsiConsolePrintChar_board0 [of ASCII_ACK] by (simp add: board_def)
  show "pushesEvents board (jswrap_stream_pushData boardHooks eventType str)" for eventType str
    unfolding pushesEvents_def
    by (auto intro!: queueExtended_same simp add: boardHooks_def)
  show "pushesEvents board (jsiOtherEvent boardHooks eventFlags d)" for eventFlags d
  proof -
    have "queueExtended board s (snd (jshPushEvent board 23 [9] 1 s))" for s
      by (rule jshPushEvent_extended [OF board_consts(1)]) (simp_all add: board_consts)
    then show ?thesis by (auto simp add: pushesEvents_def boardHooks_def)
  qed
qed

lemma ioQueue_fourEvents:
  "ioQueue board fourEvents [(23, [1, 2, 3, 4]), (20, [0x41]), (21, [5]), (21, [6])]"
  by code_simp

lemma notLoopback_fourEvents: "notLoopback board fourEvents"
  by code_simp

text \<open>
  What a pass does keep is the order of the events. Let the event queue hold the events
  \<open>orig\<close> when jsiIdle takes \<open>maxEvents = jshGetEventsUsed()\<close>, with the console not on a
  loopback device and with collaborators that leave the events of the queue in place
  and at most push new ones. When the event phase of the pass is over, the events it
  has popped, followed by the events left in the queue, are \<open>orig\<close> followed by the events
  pushed during the pass: the events of \<open>orig\<close> are popped in their order and each at most
  once, and every pop after them takes an event that a handler has pushed during the
  pass.
\<close>

lemma jsiIdleDispatch_keeps_order:
  assumes "IOBUFFERMASK cfg = 2 ^ k - 1"
    and "handlersPushEvents cfg hk"
    and "notLoopback cfg s"
    and "ioQueue cfg s orig"
    and "jsiIdleDispatch cfg hk s = Some (popped, s')"
  shows "(\<exists>rest new. ioQueue cfg s' rest \<and> popped @ rest = orig @ new) \<and>
         take (length orig) popped = take (length popped) orig"
proof -
  from jsiIdleEvents_queue_aux [OF assms(5) [unfolded jsiIdleDispatch_def], of k] assms(1-4)
  obtain rest new where q: "ioQueue cfg s' rest" and e: "popped @ rest = orig @ new"
    by auto
  have "take (length orig) popped = take (length popped) orig"
  proof -
    have a: "take (length orig) popped = take (min (length orig) (length popped)) (popped @ rest)"
      by (cases "length orig \<le> length popped") (simp_all add: min_def)
    have b: "take (length popped) orig = take (min (length popped) (length orig)) (orig @ new)"
      by (cases "length popped \<le> length orig") (simp_all add: min_def)
    show ?thesis unfolding a b e by (simp only: min.commute)
  qed
  then show ?thesis using q e by auto
qed

lemma jsiIdleDispatch_fourEvents:
  "map_option fst (jsiIdleDispatch board boardHooks fourEvents) =
     Some ([(23, [1, 2, 3, 4]), (20, [0x41]), (21, [5]), (21, [6])] @ replicate 9 (23, [9]))"
  by code_simp

lemma jshGetEventsUsed_fourEvents: "jshGetEventsUsed board fourEvents = 15"
  by code_simp

text \<open>
  jsiHandleIOEventForSerial, called for the event \<open>(21, [5])\<close> with the event \<open>(21, [6])\<close> next
  in the queue, takes that one event more and returns 3, which is \<open>length+2\<close> of the
  event it took (its comment: the number of extra events, not characters, is returned).
\<close>

lemma jsiHandleIOEventForSerial_returns_length:
  "fst (jshPopIOEvent board
          (snd (jshPushEvent board 21 [6] 1 (snd (jshPushEvent board 21 [5] 1 (initial board)))))) = 21 \<and>
   fst (snd (jshPopIOEvent board
          (snd (jshPushEvent board 21 [6] 1 (snd (jshPushEvent board 21 [5] 1 (initial board))))))) =
     Some [5] \<and>
   map_option fst
     (jsiHandleIOEventForSerial board boardHooks 21 [5]
        (snd (snd (jshPopIOEvent board
          (snd (jshPushEvent board 21 [6] 1 (snd (jshPushEvent board 21 [5] 1 (initial board))))))))) =
     Some 3 \<and>
   map_option (fst \<circ> snd)
     (jsiHandleIOEventForSerial board boardHooks 21 [5]
        (snd (snd (jshPopIOEvent board
          (snd (jshPushEvent board 21 [6] 1 (snd (jshPushEvent board 21 [5] 1 (initial board))))))))) =
     Some [(21, [6])]"
  by code_simp

text \<open>
  Claim C4, at the input where the code departs from it. The queue holds four events
  when the pass starts, and the handler of an event for device 23 pushes one new event
  for device 23 each time it runs. \<open>maxEvents\<close> is taken from jshGetEventsUsed, which
  gives the number of bytes in the queue, 15, and not the number of events, 4. The loop
  goes on until that count is used up: the event phase of the one pass pops thirteen
  events, the four that were in the queue at the start and after them nine that were
  pushed during the pass.
\<close>

theorem jsiIdle_pops_events_pushed_during_pass:
  "ioQueue board fourEvents [(23, [1, 2, 3, 4]), (20, [0x41]), (21, [5]), (21, [6])] \<and>
   jshGetEventsUsed board fourEvents = 15 \<and>
   map_option fst (jsiIdleDispatch board boardHooks fourEvents) =
     Some [(23, [1, 2, 3, 4]), (20, [0x41]), (21, [5]), (21, [6]),
           (23, [9]), (23, [9]), (23, [9]), (23, [9]), (23, [9]),
           (23, [9]), (23, [9]), (23, [9]), (23, [9])] \<and>
   map_option (length \<circ> fst) (jsiIdleDispatch board boardHooks fourEvents) = Some 13"
proof -
  have run: "map_option fst (jsiIdleDispatch board boardHooks fourEvents) =
     Some [(23, [1, 2, 3, 4]), (20, [0x41]), (21, [5]), (21, [6]),
           (23, [9]), (23, [9]), (23, [9]), (23, [9]), (23, [9]),
           (23, [9]), (23, [9]), (23, [9]), (23, [9])]"
    using jsiIdleDispatch_fourEvents by (simp add: eval_nat_numeral)
  have "map_option (length \<circ> fst) (jsiIdleDispatch board boardHooks fourEvents) =
        map_option length (map_option fst (jsiIdleDispatch board boardHooks fourEvents))"
    by (simp add: option.map_comp)
  also have "\<dots> = Some 13" unfolding run by simp
  finally show ?thesis
    using ioQueue_fourEvents jshGetEventsUsed_fourEvents run by (intro conjI)
qed

text \<open>
  The event phase comes to an end whenever the collaborators it calls return: every
  turn of the loop takes at least one off \<open>maxEvents\<close>, and the loop of
  jsiHandleIOEventForSerial takes an event off the queue each time round.
\<close>

lemma jsiSerialMore_returns:
  assumes msk: "IOBUFFERMASK cfg = 2 ^ k - 1"
  shows "ioQueue cfg s q \<Longrightarrow> \<exists>r. jsiSerialMore cfg ty d str popped s = Some r"
proof (induction q arbitrary: d str popped s)
  case Nil
  then have "ioHead s = ioTail s" using ioQueue_empty_iff by blast
  then show ?case by (subst jsiSerialMore.simps) (simp add: jshIsTopEvent_def)
next
  case (Cons e q)
  obtain evt dd where e: "e = (evt, dd)" by (cases e) auto
  note pop = jshPopIOEvent_queue [OF msk Cons.prems [unfolded e]]
  show ?case
  proof (cases "jshIsTopEvent cfg ty s")
    case False
    then show ?thesis by (subst jsiSerialMore.simps) simp
  next
    case True
    have p: "fst (jshPopIOEvent cfg s) = evt" "fst (snd (jshPopIOEvent cfg s)) = Some dd"
      using pop(1) by simp_all
    have step: "jsiSerialMore cfg ty d str popped s =
                jsiSerialMore cfg ty dd (str @ dd) (popped @ [(evt, dd)]) (snd (snd (jshPopIOEvent cfg s)))"
      using True p by (subst jsiSerialMore.simps) simp
    show ?thesis unfolding step by (rule Cons.IH [OF pop(2)])
  qed
qed

lemma jsiIdleEvents_returns:
  assumes msk: "IOBUFFERMASK cfg = 2 ^ k - 1"
    and H: "handlersPushEvents cfg hk"
    and console: "\<And>d s. \<exists>s'. jsiHandleIOEventForConsole cfg d s = Some s'"
    and data: "\<And>t str s. \<exists>s'. jswrap_stream_pushData hk t str s = Some s'"
    and other: "\<And>e d s. \<exists>s'. jsiOtherEvent hk e d s = Some s'"
  shows "notLoopback cfg s \<Longrightarrow> ioQueue cfg s q \<Longrightarrow>
         \<exists>r. jsiIdleEvents cfg hk maxEvents popped s = Some r"
proof (induction "nat maxEvents" arbitrary: maxEvents popped s q rule: less_induct)
  case less
  show ?case
  proof (cases "maxEvents > 0")
    case False
    then show ?thesis by (subst jsiIdleEvents.simps) simp
  next
    case pos: True
    show ?thesis
    proof (cases "fst (jshPopIOEvent cfg s) = EV_NONE cfg")
      case True
      then show ?thesis using pos by (subst jsiIdleEvents.simps) simp
    next
      case nn: False
      then have "q \<noteq> []" using jshPopIOEvent_empty less.prems(2) by fastforce
      then obtain evt dd q' where qe: "q = (evt, dd) # q'" by (cases q) auto
      note pop = jshPopIOEvent_queue [OF msk less.prems(2) [unfolded qe]]
      let ?s1 = "snd (snd (jshPopIOEvent cfg s))"
      let ?s2 = "jsiSetBusy cfg (BUSY_INTERACTIVE cfg) True ?s1"
      let ?ty = "IOEVENTFLAGS_GETTYPE cfg evt"
      have p1: "fst (jshPopIOEvent cfg s) = evt" "fst (snd (jshPopIOEvent cfg s)) = Some dd"
        using pop(1) by simp_all
      have nl1: "notLoopback cfg ?s1"
        using less.prems(1) jshPopIOEvent_consoleDevice [of cfg s] by (simp add: notLoopback_def)
      have e12: "queueExtended cfg ?s1 ?s2" by (rule jsiSetBusy_extended)
      have nl2: "notLoopback cfg ?s2" by (rule notLoopback_extended [OF e12 nl1])
      obtain new0 where q2: "ioQueue cfg ?s2 (q' @ new0)"
        using e12 pop(2) by (auto simp add: queueExtended_def)
      have next_call: "\<exists>r. jsiIdleEvents cfg hk m pp s3 = Some r"
        if "m < maxEvents" "notLoopback cfg s3" "ioQueue cfg s3 q3" for m pp s3 q3
        by (rule less.hyps [OF _ that(2) that(3)]) (use that(1) pos in simp)
      show ?thesis
      proof (cases "?ty = consoleDevice ?s2")
        case True
        obtain s3 where h: "jsiHandleIOEventForConsole cfg dd ?s2 = Some s3" using console by blast
        have e3: "queueExtended cfg ?s2 s3" by (rule jsiHandleIOEventForConsole_extended [OF H nl2 h])
        obtain new1 where q3: "ioQueue cfg s3 ((q' @ new0) @ new1)"
          using e3 q2 by (auto simp add: queueExtended_def)
        from next_call [OF _ notLoopback_extended [OF e3 nl2] q3, of "maxEvents - 1" "popped @ [(evt, dd)]"]
        obtain r where "jsiIdleEvents cfg hk (maxEvents - 1) (popped @ [(evt, dd)]) s3 = Some r"
          by auto
        then show ?thesis using pos nn p1 True h
          by (subst jsiIdleEvents.simps) (simp add: Let_def)
      next
        case nc: False
        show ?thesis
        proof (cases "DEVICE_IS_SERIAL hk ?ty")
          case False
          obtain s3 where h: "jsiOtherEvent hk evt dd ?s2 = Some s3" using other by blast
          have e3: "queueExtended cfg ?s2 s3"
            by (rule pushesEventsD [OF handlersPushEventsD(10) [OF H] nl2 h])
          obtain new1 where q3: "ioQueue cfg s3 ((q' @ new0) @ new1)"
            using e3 q2 by (auto simp add: queueExtended_def)
          from next_call [OF _ notLoopback_extended [OF e3 nl2] q3, of "maxEvents - 1" "popped @ [(evt, dd)]"]
          obtain r where "jsiIdleEvents cfg hk (maxEvents - 1) (popped @ [(evt, dd)]) s3 = Some r"
            by auto
          then show ?thesis using pos nn p1 nc False h
            by (subst jsiIdleEvents.simps) (simp add: Let_def)
        next
          case ser: True
          show ?thesis
          proof (cases "jsiUsartClassIsObject hk ?ty ?s2")
            case False
            from next_call [OF _ nl2 q2, of "maxEvents - 1" "popped @ [(evt, dd)]"]
            obtain r where "jsiIdleEvents cfg hk (maxEvents - 1) (popped @ [(evt, dd)]) ?s2 = Some r"
              by auto
            then show ?thesis using pos nn p1 nc ser False
              by (subst jsiIdleEvents.simps) (simp add: Let_def)
          next
            case True
            have "\<exists>x. jsiHandleIOEventForSerial cfg hk evt dd ?s2 = Some x"
            proof (cases "length dd \<noteq> 0 \<and> jsvNewStringOfLength hk (length dd) ?s2")
              case False
              then show ?thesis by (auto simp add: jsiHandleIOEventForSerial_def)
            next
              case True
              from jsiSerialMore_returns [OF msk q2] obtain x where
                x: "jsiSerialMore cfg ?ty dd dd [] ?s2 = Some x" by blast
              obtain d1 str pp s1 where "x = (d1, str, pp, s1)" by (cases x) auto
              moreover obtain s3 where "jswrap_stream_pushData hk ?ty str s1 = Some s3"
                using data by blast
              ultimately show ?thesis using True x by (simp add: jsiHandleIOEventForSerial_def)
            qed
            then obtain n extra s3 where h: "jsiHandleIOEventForSerial cfg hk evt dd ?s2 = Some (n, extra, s3)"
              by (metis prod_cases3)
            have n0: "0 \<le> n" using h
              by (auto simp add: jsiHandleIOEventForSerial_def split: if_splits option.splits)
            from jsiHandleIOEventForSerial_queue [OF msk H nl2 q2 h] obtain rest1 new1 where
              cd: "consoleDevice s3 = consoleDevice ?s2" and q3: "ioQueue cfg s3 (rest1 @ new1)"
              by blast
            have nl3: "notLoopback cfg s3" using nl2 cd by (simp add: notLoopback_def)
            from next_call [OF _ nl3 q3, of "maxEvents - 1 - n" "popped @ [(evt, dd)] @ extra"] n0
            obtain r where
              "jsiIdleEvents cfg hk (maxEvents - 1 - n) (popped @ [(evt, dd)] @ extra) s3 = Some r"
              by auto
            then show ?thesis using pos nn p1 nc ser True h
              by (subst jsiIdleEvents.simps) (simp add: Let_def)
          qed
        qed
      qed
    qed
  qed
qed

lemma jsiIdleDispatch_returns:
  assumes "IOBUFFERMASK cfg = 2 ^ k - 1"
    and "handlersPushEvents cfg hk"
    and "\<And>d s. \<exists>s'. jsiHandleIOEventForConsole cfg d s = Some s'"
    and "\<And>t str s. \<exists>s'. jswrap_stream_pushData hk t str s = Some s'"
    and "\<And>e d s. \<exists>s'. jsiOtherEvent hk e d s = Some s'"
    and "notLoopback cfg s"
    and "ioQueue cfg s q"
  shows "\<exists>r. jsiIdleDispatch cfg hk s = Some r"
  unfolding jsiIdleDispatch_def using assms by (rule jsiIdleEvents_returns)

end
